theory Spec2Isabelle
  imports Main
begin

section \<open>The awless template parser: data model\<close>

text \<open>
  The source is \<^verbatim>\<open>template/ast/awless-template-syntax.peg.go\<close>, a backtracking matcher
  generated from a parsing expression grammar. A rune is Go's \<^verbatim>\<open>int32\<close> code point; the
  input text is taken as the list of code points that \<^verbatim>\<open>[]rune(p.Buffer)\<close> yields.
  The counters \<^verbatim>\<open>position\<close> and \<^verbatim>\<open>tokenIndex\<close> are \<^verbatim>\<open>uint32\<close> in the source and natural
  numbers here: \<^verbatim>\<open>position\<close> never leaves the buffer (lemma \<open>sound_Script\<close> below), so
  for buffers and token lists shorter than \<open>2^32\<close> no wrap-around occurs.
\<close>

type_synonym rune = int

definition endSymbol :: rune where
  "endSymbol = 1114112"

definition rune :: "char \<Rightarrow> rune" where
  "rune c = of_char c"

definition runes :: "string \<Rightarrow> rune list" where
  "runes cs = map rune cs"

datatype pegRule =
    ruleUnknown | ruleScript | ruleStatement | ruleAction | ruleEntity | ruleDeclaration
  | ruleExpr | ruleParams | ruleParam | ruleIdentifier | ruleValue | ruleStringValue
  | ruleCidrValue | ruleIpValue | ruleIntValue | ruleIntRangeValue | ruleRefValue
  | ruleAliasValue | ruleHoleValue | ruleComment | ruleSpacing | ruleWhiteSpacing
  | ruleMustWhiteSpacing | ruleEqual | ruleSpace | ruleWhitespace | ruleEndOfLine
  | ruleEndOfFile | rulePegText | ruleAction0 | ruleAction1 | ruleAction2 | ruleAction3
  | ruleAction4 | ruleAction5 | ruleAction6 | ruleAction7 | ruleAction8 | ruleAction9
  | ruleAction10 | ruleAction11 | ruleAction12 | ruleAction13

fun rul3s :: "pegRule \<Rightarrow> string" where
  "rul3s ruleUnknown = ''Unknown''"
| "rul3s ruleScript = ''Script''"
| "rul3s ruleStatement = ''Statement''"
| "rul3s ruleAction = ''Action''"
| "rul3s ruleEntity = ''Entity''"
| "rul3s ruleDeclaration = ''Declaration''"
| "rul3s ruleExpr = ''Expr''"
| "rul3s ruleParams = ''Params''"
| "rul3s ruleParam = ''Param''"
| "rul3s ruleIdentifier = ''Identifier''"
| "rul3s ruleValue = ''Value''"
| "rul3s ruleStringValue = ''StringValue''"
| "rul3s ruleCidrValue = ''CidrValue''"
| "rul3s ruleIpValue = ''IpValue''"
| "rul3s ruleIntValue = ''IntValue''"
| "rul3s ruleIntRangeValue = ''IntRangeValue''"
| "rul3s ruleRefValue = ''RefValue''"
| "rul3s ruleAliasValue = ''AliasValue''"
| "rul3s ruleHoleValue = ''HoleValue''"
| "rul3s ruleComment = ''Comment''"
| "rul3s ruleSpacing = ''Spacing''"
| "rul3s ruleWhiteSpacing = ''WhiteSpacing''"
| "rul3s ruleMustWhiteSpacing = ''MustWhiteSpacing''"
| "rul3s ruleEqual = ''Equal''"
| "rul3s ruleSpace = ''Space''"
| "rul3s ruleWhitespace = ''Whitespace''"
| "rul3s ruleEndOfLine = ''EndOfLine''"
| "rul3s ruleEndOfFile = ''EndOfFile''"
| "rul3s rulePegText = ''PegText''"
| "rul3s ruleAction0 = ''Action0''"
| "rul3s ruleAction1 = ''Action1''"
| "rul3s ruleAction2 = ''Action2''"
| "rul3s ruleAction3 = ''Action3''"
| "rul3s ruleAction4 = ''Action4''"
| "rul3s ruleAction5 = ''Action5''"
| "rul3s ruleAction6 = ''Action6''"
| "rul3s ruleAction7 = ''Action7''"
| "rul3s ruleAction8 = ''Action8''"
| "rul3s ruleAction9 = ''Action9''"
| "rul3s ruleAction10 = ''Action10''"
| "rul3s ruleAction11 = ''Action11''"
| "rul3s ruleAction12 = ''Action12''"
| "rul3s ruleAction13 = ''Action13''"

text \<open>\<^verbatim>\<open>token32\<close>: the embedded rule and the span; \<^verbatim>\<open>begin\<close> and \<^verbatim>\<open>end\<close> are keywords
  here, hence \<open>tbegin\<close> and \<open>tend\<close>.\<close>

record token32 =
  pegRule :: pegRule
  tbegin :: nat
  tend :: nat

definition token_zero :: token32 where
  "token_zero = \<lparr>pegRule = ruleUnknown, tbegin = 0, tend = 0\<rparr>"


section \<open>Token store\<close>

text \<open>
  \<^verbatim>\<open>tokens32\<close> holds the slice \<^verbatim>\<open>tree\<close>: a backing array, a length and a capacity.
  The backing array is kept here as the cells assigned so far (\<open>tree\<close>) followed by
  \<open>unused\<close> cells that still hold the zero record of \<^verbatim>\<open>make\<close>, so the capacity is
  \<open>cap_tree\<close>; \<open>len_tree\<close> is \<^verbatim>\<open>len(t.tree)\<close>, a Go \<^verbatim>\<open>int\<close>, at most the capacity.
  \<open>cells\<close> is the slice itself: the first \<open>len_tree\<close> cells of the backing array.
\<close>

record tokens32 =
  tree :: "token32 list"
  unused :: int
  len_tree :: int

definition cap_tree :: "tokens32 \<Rightarrow> int" where
  "cap_tree t = int (length (tree t)) + unused t"

definition cells :: "tokens32 \<Rightarrow> token32 list" where
  "cells t =
     (let n = nat (len_tree t)
      in if n \<le> length (tree t) then take n (tree t)
         else tree t @ replicate (n - length (tree t)) token_zero)"

text \<open>\<^verbatim>\<open>Add\<close>: when \<^verbatim>\<open>int(index) >= len(tree)\<close> the slice is replaced by
  \<^verbatim>\<open>make([]token32, 2*len(tree))\<close>, to which \<^verbatim>\<open>copy\<close> brings the \<^verbatim>\<open>len(tree)\<close> cells of
  the old slice (the new cells are zero); then \<^verbatim>\<open>tree[index]\<close> is assigned, which
  panics (\<open>None\<close>) when the index is still not below the length.\<close>

definition Add :: "pegRule \<Rightarrow> nat \<Rightarrow> nat \<Rightarrow> nat \<Rightarrow> tokens32 \<Rightarrow> tokens32 option" where
  "Add rule b e index t =
     (let t1 = (if int index \<ge> len_tree t
                then \<lparr>tree = take (nat (len_tree t)) (tree t),
                      unused = 2 * len_tree t - int (length (take (nat (len_tree t)) (tree t))),
                      len_tree = 2 * len_tree t\<rparr>
                else t);
          tok = \<lparr>pegRule = rule, tbegin = b, tend = e\<rparr>;
          n = length (tree t1)
      in if int index < len_tree t1
         then (if index < n then Some (t1\<lparr>tree := (tree t1)[index := tok]\<rparr>)
               else Some (t1\<lparr>tree := tree t1 @ replicate (index - n) token_zero @ [tok],
                              unused := unused t1 - int (index - n) - 1\<rparr>))
         else None)"

text \<open>\<^verbatim>\<open>Trim\<close> is \<^verbatim>\<open>t.tree = t.tree[:length]\<close>: the length of the slice becomes
  \<^verbatim>\<open>length\<close>, which may be more than the old length but not more than the capacity
  (a panic otherwise); the backing array is left as it is, so a trimmed slice that
  is trimmed again to a greater length shows the old cells.\<close>

definition Trim :: "nat \<Rightarrow> tokens32 \<Rightarrow> tokens32 option" where
  "Trim n t = (if int n \<le> cap_tree t then Some (t\<lparr>len_tree := int n\<rparr>) else None)"

definition Tokens :: "tokens32 \<Rightarrow> token32 list" where
  "Tokens t = cells t"

section \<open>Matcher engine\<close>

text \<open>
  The variables captured by the closures of \<^verbatim>\<open>Init\<close>: \<^verbatim>\<open>max\<close>, \<^verbatim>\<open>position\<close>,
  \<^verbatim>\<open>tokenIndex\<close> and the local \<^verbatim>\<open>tree\<close>. The buffer is not changed after \<^verbatim>\<open>reset\<close> and
  is passed as a parameter.
\<close>

record state =
  position :: nat
  tokenIndex :: nat
  store :: tokens32
  maxTok :: token32

text \<open>A matcher is a piece of the generated code that ends by falling through
  (\<open>True\<close>), by jumping to its failure label (\<open>False\<close>), or by a run-time panic
  (\<open>None\<close>).\<close>

type_synonym matcher = "state \<Rightarrow> (bool \<times> state) option"

text \<open>\<^verbatim>\<open>buffer[position]\<close>, with Go's bounds check.\<close>

fun rune_at :: "rune list \<Rightarrow> nat \<Rightarrow> rune option" where
  "rune_at [] i = None"
| "rune_at (x # xs) 0 = Some x"
| "rune_at (x # xs) (Suc i) = rune_at xs i"

text \<open>The closure \<^verbatim>\<open>add\<close>.\<close>

definition add :: "pegRule \<Rightarrow> nat \<Rightarrow> state \<Rightarrow> state option" where
  "add rule b s =
     (case Add rule b (position s) (tokenIndex s) (store s) of
        None \<Rightarrow> None
      | Some t \<Rightarrow>
          (let s1 = s\<lparr>store := t, tokenIndex := tokenIndex s + 1\<rparr>
           in Some (if b \<noteq> position s \<and> position s > tend (maxTok s)
                    then s1\<lparr>maxTok := \<lparr>pegRule = rule, tbegin = b, tend = position s\<rparr>\<rparr>
                    else s1)))"

text \<open>\<^verbatim>\<open>position, tokenIndex = positionN, tokenIndexN\<close>, with \<open>s\<close> the state where the
  pair was saved.\<close>

definition restore :: "state \<Rightarrow> state \<Rightarrow> state" where
  "restore s s' = s'\<lparr>position := position s, tokenIndex := tokenIndex s\<rparr>"

text \<open>\<^verbatim>\<open>matchDot\<close>.\<close>

definition matchDot :: "rune list \<Rightarrow> matcher" where
  "matchDot buffer s =
     (case rune_at buffer (position s) of
        None \<Rightarrow> None
      | Some c \<Rightarrow> if c \<noteq> endSymbol then Some (True, s\<lparr>position := position s + 1\<rparr>)
                  else Some (False, s))"

text \<open>\<^verbatim>\<open>if buffer[position] != rune(c) { goto l }; position++\<close>.\<close>

definition lit :: "rune list \<Rightarrow> rune \<Rightarrow> matcher" where
  "lit buffer c s =
     (case rune_at buffer (position s) of
        None \<Rightarrow> None
      | Some x \<Rightarrow> if x \<noteq> c then Some (False, s)
                  else Some (True, s\<lparr>position := position s + 1\<rparr>))"

text \<open>\<^verbatim>\<open>if c := buffer[position]; c < rune(lo) || c > rune(hi) { goto l }; position++\<close>.\<close>

definition range :: "rune list \<Rightarrow> rune \<Rightarrow> rune \<Rightarrow> matcher" where
  "range buffer lo hi s =
     (case rune_at buffer (position s) of
        None \<Rightarrow> None
      | Some c \<Rightarrow> if c < lo \<or> c > hi then Some (False, s)
                  else Some (True, s\<lparr>position := position s + 1\<rparr>))"

text \<open>A run of literal tests with one failure label, as generated for a keyword.\<close>

fun lits :: "rune list \<Rightarrow> string \<Rightarrow> matcher" where
  "lits buffer [] s = Some (True, s)"
| "lits buffer (c # cs) s =
     (case lit buffer (rune c) s of
        Some (True, s') \<Rightarrow> lits buffer cs s'
      | r \<Rightarrow> r)"

text \<open>\<^verbatim>\<open>switch buffer[position] { ... }\<close>: the branch is chosen by the current rune.\<close>

definition switch :: "rune list \<Rightarrow> (rune \<Rightarrow> matcher) \<Rightarrow> matcher" where
  "switch buffer f s =
     (case rune_at buffer (position s) of
        None \<Rightarrow> None
      | Some c \<Rightarrow> f c s)"

text \<open>Statements in sequence that share a failure label: the first failure jumps
  there with the state as it is.\<close>

definition seq :: "matcher \<Rightarrow> matcher \<Rightarrow> matcher" where
  "seq p q s =
     (case p s of
        Some (True, s') \<Rightarrow> q s'
      | r \<Rightarrow> r)"

fun seqs :: "matcher list \<Rightarrow> matcher" where
  "seqs [] = (\<lambda>s. Some (True, s))"
| "seqs [p] = p"
| "seqs (p # ps) = seq p (seqs ps)"

text \<open>Ordered choice: \<^verbatim>\<open>positionN, tokenIndexN := position, tokenIndex\<close>, the first
  alternative, and at its failure label the pair is put back before the next
  alternative runs. The last alternative jumps to the enclosing failure label.\<close>

definition alt :: "matcher \<Rightarrow> matcher \<Rightarrow> matcher" where
  "alt p q s =
     (case p s of
        Some (False, s') \<Rightarrow> q (restore s s')
      | r \<Rightarrow> r)"

text \<open>Optional part: a failure puts the pair back and execution goes on.\<close>

definition opt :: "matcher \<Rightarrow> matcher" where
  "opt p s =
     (case p s of
        Some (False, s') \<Rightarrow> Some (True, restore s s')
      | r \<Rightarrow> r)"

text \<open>Negative lookahead \<^verbatim>\<open>!p\<close>: when \<open>p\<close> fails the pair is put back and execution
  goes on; when \<open>p\<close> matches, control jumps to the enclosing failure label.\<close>

definition notp :: "matcher \<Rightarrow> matcher" where
  "notp p s =
     (case p s of
        Some (False, s') \<Rightarrow> Some (True, restore s s')
      | Some (True, s') \<Rightarrow> Some (False, s')
      | None \<Rightarrow> None)"

text \<open>Repetition \<^verbatim>\<open>lN: { save; body; goto lN; lM: restore }\<close>. The pair is saved at
  the start of every iteration. A body that matched without end would keep the
  loop running: not returning is \<open>None\<close>.\<close>

partial_function (option) star :: "matcher \<Rightarrow> state \<Rightarrow> (bool \<times> state) option" where
  "star p s =
     (case p s of
        None \<Rightarrow> None
      | Some (b, s') \<Rightarrow> if b then star p s' else Some (True, restore s s'))"

declare star.simps [code]

text \<open>\<^verbatim>\<open>positionN := position; body; add(rule, positionN)\<close>.\<close>

definition tok :: "pegRule \<Rightarrow> matcher \<Rightarrow> matcher" where
  "tok rule p s =
     (case p s of
        Some (True, s') \<Rightarrow> (case add rule (position s) s' of None \<Rightarrow> None | Some s'' \<Rightarrow> Some (True, s''))
      | r \<Rightarrow> r)"

text \<open>\<^verbatim>\<open>add(ruleActionN, position)\<close>.\<close>

definition act :: "pegRule \<Rightarrow> matcher" where
  "act rule s = (case add rule (position s) s of None \<Rightarrow> None | Some s' \<Rightarrow> Some (True, s'))"

text \<open>A rule function: the pair is saved on entry and put back at the failure
  label before \<^verbatim>\<open>return false\<close>.\<close>

definition rule_fn :: "matcher \<Rightarrow> matcher" where
  "rule_fn p s =
     (case p s of
        Some (False, s') \<Rightarrow> Some (False, restore s s')
      | r \<Rightarrow> r)"


section \<open>Grammar\<close>

text \<open>
  The rule functions of the array \<^verbatim>\<open>_rules\<close> are \<open>Script\<close>, \<open>Expr\<close>, \<open>Identifier\<close>,
  \<open>Spacing\<close>, \<open>WhiteSpacing\<close>, \<open>MustWhiteSpacing\<close>, \<open>Equal\<close>, \<open>Whitespace\<close> and
  \<open>EndOfLine\<close>; the other rules are expanded in place by the generator (their entries
  are \<^verbatim>\<open>nil\<close>), and each is one definition here, named after the grammar rule in
  the source's comments. Where the generator expanded a rule twice (\<open>Statement\<close> and
  \<open>Param\<close>, once before the loop of \<^verbatim>\<open>+\<close> and once inside it), the two copies
  differ only in label and variable numbers.
\<close>

text \<open>\<^verbatim>\<open>Whitespace <- <(' ' / '\t')>\<close>\<close>

definition Whitespace :: "rune list \<Rightarrow> matcher" where
  "Whitespace buffer =
     rule_fn (tok ruleWhitespace (alt (lit buffer (rune CHR '' '')) (lit buffer (rune CHR 0x09))))"

text \<open>\<^verbatim>\<open>EndOfLine <- <(('\r' '\n') / '\n' / '\r')>\<close>\<close>

definition EndOfLine :: "rune list \<Rightarrow> matcher" where
  "EndOfLine buffer =
     rule_fn (tok ruleEndOfLine
       (alt (lits buffer [CHR 0x0D, CHR 0x0A])
       (alt (lit buffer (rune CHR 0x0A))
            (lit buffer (rune CHR 0x0D)))))"

text \<open>\<^verbatim>\<open>Spacing <- <Space*>\<close> with \<^verbatim>\<open>Space <- <(Whitespace / EndOfLine)>\<close>\<close>

definition Space :: "rune list \<Rightarrow> matcher" where
  "Space buffer = tok ruleSpace (alt (Whitespace buffer) (EndOfLine buffer))"

definition Spacing :: "rune list \<Rightarrow> matcher" where
  "Spacing buffer = tok ruleSpacing (star (Space buffer))"

text \<open>\<^verbatim>\<open>WhiteSpacing <- <Whitespace*>\<close>\<close>

definition WhiteSpacing :: "rune list \<Rightarrow> matcher" where
  "WhiteSpacing buffer = tok ruleWhiteSpacing (star (Whitespace buffer))"

text \<open>\<^verbatim>\<open>MustWhiteSpacing <- <Whitespace+>\<close>\<close>

definition MustWhiteSpacing :: "rune list \<Rightarrow> matcher" where
  "MustWhiteSpacing buffer =
     rule_fn (tok ruleMustWhiteSpacing (seq (Whitespace buffer) (star (Whitespace buffer))))"

text \<open>\<^verbatim>\<open>Equal <- <(Spacing '=' Spacing)>\<close>\<close>

definition Equal :: "rune list \<Rightarrow> matcher" where
  "Equal buffer =
     rule_fn (tok ruleEqual (seqs [Spacing buffer, lit buffer (rune CHR ''=''), Spacing buffer]))"

text \<open>One character of an \<^verbatim>\<open>Identifier\<close>: the \<^verbatim>\<open>switch\<close> with the cases \<^verbatim>\<open>'.'\<close>, \<^verbatim>\<open>'_'\<close>,
  \<^verbatim>\<open>'-'\<close>, \<^verbatim>\<open>'A'\<close> to \<^verbatim>\<open>'Z'\<close> and, by default, the range \<^verbatim>\<open>[a-z]\<close>.\<close>

definition Identifier_char :: "rune list \<Rightarrow> matcher" where
  "Identifier_char buffer =
     switch buffer (\<lambda>c.
       if c = rune CHR ''.'' then lit buffer (rune CHR ''.'')
       else if c = rune CHR ''_'' then lit buffer (rune CHR ''_'')
       else if c = rune CHR ''-'' then lit buffer (rune CHR ''-'')
       else if rune CHR ''A'' \<le> c \<and> c \<le> rune CHR ''Z''
         then range buffer (rune CHR ''A'') (rune CHR ''Z'')
       else range buffer (rune CHR ''a'') (rune CHR ''z''))"

definition Identifier :: "rune list \<Rightarrow> matcher" where
  "Identifier buffer =
     rule_fn (tok ruleIdentifier (seq (Identifier_char buffer) (star (Identifier_char buffer))))"

text \<open>\<^verbatim>\<open>Action\<close>: three alternatives tried in order, then a \<^verbatim>\<open>switch\<close> on the current
  rune whose failures leave \<^verbatim>\<open>Expr\<close>.\<close>

definition Action :: "rune list \<Rightarrow> matcher" where
  "Action buffer =
     tok ruleAction
       (alt (lits buffer ''create'')
       (alt (lits buffer ''delete'')
       (alt (lits buffer ''start'')
            (switch buffer (\<lambda>c.
               if c = rune CHR ''d'' then lits buffer ''detach''
               else if c = rune CHR ''c'' then lits buffer ''check''
               else if c = rune CHR ''a'' then lits buffer ''attach''
               else if c = rune CHR ''u'' then lits buffer ''update''
               else lits buffer ''stop'')))))"

definition Entity :: "rune list \<Rightarrow> matcher" where
  "Entity buffer =
     tok ruleEntity
       (alt (lits buffer ''vpc'')
       (alt (lits buffer ''subnet'')
       (alt (lits buffer ''instance'')
       (alt (lits buffer ''tag'')
       (alt (lits buffer ''role'')
       (alt (lits buffer ''securitygroup'')
       (alt (lits buffer ''routetable'')
       (alt (lits buffer ''storageobject'')
            (switch buffer (\<lambda>c.
               if c = rune CHR ''q'' then lits buffer ''queue''
               else if c = rune CHR ''t'' then lits buffer ''topic''
               else if c = rune CHR ''s'' then lits buffer ''subscription''
               else if c = rune CHR ''b'' then lits buffer ''bucket''
               else if c = rune CHR ''r'' then lits buffer ''route''
               else if c = rune CHR ''i'' then lits buffer ''internetgateway''
               else if c = rune CHR ''k'' then lits buffer ''keypair''
               else if c = rune CHR ''p'' then lits buffer ''policy''
               else if c = rune CHR ''g'' then lits buffer ''group''
               else if c = rune CHR ''u'' then lits buffer ''user''
               else lits buffer ''volume''))))))))))"

text \<open>\<^verbatim>\<open>[0-9]+\<close>\<close>

definition digits :: "rune list \<Rightarrow> matcher" where
  "digits buffer =
     seq (range buffer (rune CHR ''0'') (rune CHR ''9''))
         (star (range buffer (rune CHR ''0'') (rune CHR ''9'')))"

text \<open>\<^verbatim>\<open>CidrValue <- <([0-9]+ . [0-9]+ . [0-9]+ . [0-9]+ '/' [0-9]+)>\<close>: the separators are
  calls of \<^verbatim>\<open>matchDot\<close>.\<close>

definition CidrValue :: "rune list \<Rightarrow> matcher" where
  "CidrValue buffer =
     tok ruleCidrValue
       (seqs [digits buffer, matchDot buffer, digits buffer, matchDot buffer,
              digits buffer, matchDot buffer, digits buffer,
              lit buffer (rune CHR ''/''), digits buffer])"

definition IpValue :: "rune list \<Rightarrow> matcher" where
  "IpValue buffer =
     tok ruleIpValue
       (seqs [digits buffer, matchDot buffer, digits buffer, matchDot buffer,
              digits buffer, matchDot buffer, digits buffer])"

definition IntRangeValue :: "rune list \<Rightarrow> matcher" where
  "IntRangeValue buffer =
     tok ruleIntRangeValue (seqs [digits buffer, lit buffer (rune CHR ''-''), digits buffer])"

definition IntValue :: "rune list \<Rightarrow> matcher" where
  "IntValue buffer = tok ruleIntValue (digits buffer)"

definition RefValue :: "rune list \<Rightarrow> matcher" where
  "RefValue buffer =
     tok ruleRefValue (seq (lit buffer (rune CHR ''$'')) (tok rulePegText (Identifier buffer)))"

definition AliasValue :: "rune list \<Rightarrow> matcher" where
  "AliasValue buffer =
     tok ruleAliasValue (seq (lit buffer (rune CHR ''@'')) (tok rulePegText (Identifier buffer)))"

definition HoleValue :: "rune list \<Rightarrow> matcher" where
  "HoleValue buffer =
     tok ruleHoleValue
       (seqs [lit buffer (rune CHR ''{''), WhiteSpacing buffer, tok rulePegText (Identifier buffer),
              WhiteSpacing buffer, lit buffer (rune CHR ''}'')])"

text \<open>One character of a \<^verbatim>\<open>StringValue\<close>.\<close>

definition StringValue_char :: "rune list \<Rightarrow> matcher" where
  "StringValue_char buffer =
     switch buffer (\<lambda>c.
       if c = rune CHR ''/'' then lit buffer (rune CHR ''/'')
       else if c = rune CHR '':'' then lit buffer (rune CHR '':'')
       else if c = rune CHR ''_'' then lit buffer (rune CHR ''_'')
       else if c = rune CHR ''.'' then lit buffer (rune CHR ''.'')
       else if c = rune CHR ''-'' then lit buffer (rune CHR ''-'')
       else if rune CHR ''0'' \<le> c \<and> c \<le> rune CHR ''9''
         then range buffer (rune CHR ''0'') (rune CHR ''9'')
       else if rune CHR ''A'' \<le> c \<and> c \<le> rune CHR ''Z''
         then range buffer (rune CHR ''A'') (rune CHR ''Z'')
       else range buffer (rune CHR ''a'') (rune CHR ''z''))"

definition StringValue :: "rune list \<Rightarrow> matcher" where
  "StringValue buffer =
     tok ruleStringValue (seq (StringValue_char buffer) (star (StringValue_char buffer)))"

text \<open>\<^verbatim>\<open>Value\<close>: Cidr, Ip, IntRange and Int in this order, then the \<^verbatim>\<open>switch\<close> on
  \<^verbatim>\<open>'$'\<close>, \<^verbatim>\<open>'@'\<close>, \<^verbatim>\<open>'{'\<close> with \<^verbatim>\<open>StringValue\<close> as the default.\<close>

definition Value :: "rune list \<Rightarrow> matcher" where
  "Value buffer =
     tok ruleValue
       (alt (seq (tok rulePegText (CidrValue buffer)) (act ruleAction8))
       (alt (seq (tok rulePegText (IpValue buffer)) (act ruleAction9))
       (alt (seq (tok rulePegText (IntRangeValue buffer)) (act ruleAction10))
       (alt (seq (tok rulePegText (IntValue buffer)) (act ruleAction11))
            (switch buffer (\<lambda>c.
               if c = rune CHR ''$'' then seq (RefValue buffer) (act ruleAction7)
               else if c = rune CHR ''@'' then seq (AliasValue buffer) (act ruleAction6)
               else if c = rune CHR ''{'' then seq (HoleValue buffer) (act ruleAction5)
               else seq (tok rulePegText (StringValue buffer)) (act ruleAction12)))))))"

text \<open>\<^verbatim>\<open>Param <- <(<Identifier> Action4 Equal Value WhiteSpacing)>\<close>\<close>

definition Param :: "rune list \<Rightarrow> matcher" where
  "Param buffer =
     tok ruleParam
       (seqs [tok rulePegText (Identifier buffer), act ruleAction4, Equal buffer,
              Value buffer, WhiteSpacing buffer])"

definition Params :: "rune list \<Rightarrow> matcher" where
  "Params buffer = tok ruleParams (seq (Param buffer) (star (Param buffer)))"

text \<open>\<^verbatim>\<open>Expr <- <(<Action> Action1 MustWhiteSpacing <Entity> Action2
  (MustWhiteSpacing Params)? Action3)>\<close>\<close>

definition Expr :: "rune list \<Rightarrow> matcher" where
  "Expr buffer =
     rule_fn (tok ruleExpr
       (seqs [tok rulePegText (Action buffer), act ruleAction1, MustWhiteSpacing buffer,
              tok rulePegText (Entity buffer), act ruleAction2,
              opt (seq (MustWhiteSpacing buffer) (Params buffer)),
              act ruleAction3]))"

text \<open>\<^verbatim>\<open>Declaration <- <(<Identifier> Action0 Equal Expr)>\<close>\<close>

definition Declaration :: "rune list \<Rightarrow> matcher" where
  "Declaration buffer =
     tok ruleDeclaration
       (seqs [tok rulePegText (Identifier buffer), act ruleAction0, Equal buffer, Expr buffer])"

text \<open>\<^verbatim>\<open>Comment <- <(('#' (!EndOfLine .)*) / ('/' '/' (!EndOfLine .)* Action13))>\<close>\<close>

definition Comment :: "rune list \<Rightarrow> matcher" where
  "Comment buffer =
     tok ruleComment
       (alt (seq (lit buffer (rune CHR ''#''))
                 (star (seq (notp (EndOfLine buffer)) (matchDot buffer))))
            (seqs [lit buffer (rune CHR ''/''), lit buffer (rune CHR ''/''),
                   star (seq (notp (EndOfLine buffer)) (matchDot buffer)),
                   act ruleAction13]))"

text \<open>\<^verbatim>\<open>Statement <- <(Spacing (Expr / Declaration / Comment) Spacing EndOfLine*)>\<close>\<close>

definition Statement :: "rune list \<Rightarrow> matcher" where
  "Statement buffer =
     tok ruleStatement
       (seqs [Spacing buffer,
              alt (Expr buffer) (alt (Declaration buffer) (Comment buffer)),
              Spacing buffer,
              star (EndOfLine buffer)])"

text \<open>\<^verbatim>\<open>EndOfFile <- <!.>\<close>\<close>

definition EndOfFile :: "rune list \<Rightarrow> matcher" where
  "EndOfFile buffer = tok ruleEndOfFile (notp (matchDot buffer))"

text \<open>\<^verbatim>\<open>Script <- <(Spacing Statement+ EndOfFile)>\<close>\<close>

definition Script :: "rune list \<Rightarrow> matcher" where
  "Script buffer =
     rule_fn (tok ruleScript
       (seqs [Spacing buffer, Statement buffer, star (Statement buffer), EndOfFile buffer]))"


section \<open>The parser object\<close>

text \<open>
  \<^verbatim>\<open>Peg\<close>: the text \<^verbatim>\<open>Buffer\<close> (as its code points), the rune slice \<^verbatim>\<open>buffer\<close>, the
  flag \<^verbatim>\<open>Pretty\<close>, the embedded \<^verbatim>\<open>tokens32\<close>, and the variables of the closures that
  \<^verbatim>\<open>Init\<close> creates. The embedded \<^verbatim>\<open>*AST\<close> is the receiver of the semantic calls and
  is represented by the list of calls made on it.

  The slice \<^verbatim>\<open>buffer\<close> is kept as its \<^verbatim>\<open>len(buffer)\<close> runes (\<open>buffer\<close>) and the number
  \<open>spare\<close> of further cells of its backing array, \<^verbatim>\<open>cap(buffer) - len(buffer)\<close>. The
  capacity is what the Go runtime gave to \<^verbatim>\<open>[]rune(p.Buffer)\<close> and \<^verbatim>\<open>append\<close> (size
  classes and the growth of \<^verbatim>\<open>append\<close>), so it is a parameter of \<open>reset\<close>; the spare
  cells hold the zero rune.
\<close>

record Peg =
  Buffer :: "rune list"
  buffer :: "rune list"
  spare :: nat
  Pretty :: bool
  tokens32 :: tokens32
  vars :: state

text \<open>The closure \<^verbatim>\<open>p.reset\<close>.\<close>

definition reset :: "nat \<Rightarrow> Peg \<Rightarrow> Peg" where
  "reset k p =
     p\<lparr>buffer := (if Buffer p = [] \<or> last (Buffer p) \<noteq> endSymbol
                    then Buffer p @ [endSymbol] else Buffer p),
       spare := k,
       vars := (vars p)\<lparr>maxTok := token_zero, position := 0, tokenIndex := 0\<rparr>\<rparr>"

text \<open>\<^verbatim>\<open>Init\<close>: \<^verbatim>\<open>reset\<close>, then the store \<^verbatim>\<open>make([]token32, math.MaxInt16)\<close>.\<close>

definition Init :: "nat \<Rightarrow> Peg \<Rightarrow> Peg" where
  "Init k p =
     (let p1 = reset k p
      in p1\<lparr>vars := (vars p1)\<lparr>store := \<lparr>tree = [], unused = 32767, len_tree = 32767\<rparr>\<rparr>\<rparr>)"

text \<open>\<^verbatim>\<open>parseError\<close> keeps the parser and the value of \<^verbatim>\<open>max\<close>.\<close>

record parseError =
  err_p :: Peg
  err_max :: token32

text \<open>\<^verbatim>\<open>Parse()\<close> without a rule argument runs \<^verbatim>\<open>p.rules[1]\<close>, the \<^verbatim>\<open>Script\<close> function.
  The result is \<open>None\<close> for a panic, otherwise the returned error (\<open>None\<close> for
  \<^verbatim>\<open>nil\<close>) and the parser.\<close>

definition Parse :: "Peg \<Rightarrow> (parseError option \<times> Peg) option" where
  "Parse p =
     (case Script (buffer p) (vars p) of
        None \<Rightarrow> None
      | Some (matches, s) \<Rightarrow>
          (let p1 = p\<lparr>vars := s, tokens32 := store s\<rparr>
           in if matches
              then (case Trim (tokenIndex s) (tokens32 p1) of
                      None \<Rightarrow> None
                    | Some t \<Rightarrow> Some (None, p1\<lparr>tokens32 := t\<rparr>))
              else Some (Some \<lparr>err_p = p1, err_max = maxTok s\<rparr>, p1)))"

text \<open>The methods of the embedded \<^verbatim>\<open>*AST\<close> that \<^verbatim>\<open>Execute\<close> calls.\<close>

datatype call =
    addDeclarationIdentifier "rune list"
  | addAction "rune list"
  | addEntity "rune list"
  | LineDone
  | addParamKey "rune list"
  | addParamHoleValue "rune list"
  | addParamAliasValue "rune list"
  | addParamRefValue "rune list"
  | addParamCidrValue "rune list"
  | addParamIpValue "rune list"
  | addParamValue "rune list"
  | addParamIntValue "rune list"

text \<open>\<^verbatim>\<open>_buffer[begin:end]\<close> for a slice of runes \<open>xs\<close> with \<open>k\<close> spare cells: Go
  checks \<^verbatim>\<open>begin <= end <= cap\<close> (a panic otherwise), so the result may reach into the
  spare cells, which hold the zero rune.\<close>

definition slice :: "rune list \<Rightarrow> nat \<Rightarrow> nat \<Rightarrow> nat \<Rightarrow> rune list option" where
  "slice xs k b e =
     (if b \<le> e \<and> e \<le> length xs then Some (take (e - b) (drop b xs))
      else if b \<le> e \<and> e \<le> length xs + k
      then Some (take (e - b) (drop b (xs @ replicate (e - length xs) 0)))
      else None)"

text \<open>The conversion \<^verbatim>\<open>string(rs)\<close> of a rune slice, as the code points of the
  resulting string: a rune that is no Unicode scalar value (negative, a surrogate,
  or above \<^verbatim>\<open>0x10FFFF\<close>, as \<open>endSymbol\<close> is) becomes \<^verbatim>\<open>U+FFFD\<close>.\<close>

definition string_rune :: "rune \<Rightarrow> rune" where
  "string_rune c = (if 0 \<le> c \<and> c < 55296 \<or> 57343 < c \<and> c \<le> 1114111 then c else 65533)"

definition string_of :: "rune list \<Rightarrow> rune list" where
  "string_of rs = map string_rune rs"

text \<open>The loop of \<^verbatim>\<open>Execute\<close> over the tokens, with the register \<^verbatim>\<open>text\<close>; the result
  is the list of calls in the order they are made.\<close>

fun Execute_loop :: "rune list \<Rightarrow> nat \<Rightarrow> token32 list \<Rightarrow> rune list \<Rightarrow> call list option" where
  "Execute_loop buf k [] text = Some []"
| "Execute_loop buf k (t # ts) text =
     (case pegRule t of
        rulePegText \<Rightarrow>
          (case slice buf k (tbegin t) (tend t) of
             None \<Rightarrow> None
           | Some rs \<Rightarrow> Execute_loop buf k ts (string_of rs))
      | ruleAction0 \<Rightarrow> map_option ((#) (addDeclarationIdentifier text)) (Execute_loop buf k ts text)
      | ruleAction1 \<Rightarrow> map_option ((#) (addAction text)) (Execute_loop buf k ts text)
      | ruleAction2 \<Rightarrow> map_option ((#) (addEntity text)) (Execute_loop buf k ts text)
      | ruleAction3 \<Rightarrow> map_option ((#) LineDone) (Execute_loop buf k ts text)
      | ruleAction4 \<Rightarrow> map_option ((#) (addParamKey text)) (Execute_loop buf k ts text)
      | ruleAction5 \<Rightarrow> map_option ((#) (addParamHoleValue text)) (Execute_loop buf k ts text)
      | ruleAction6 \<Rightarrow> map_option ((#) (addParamAliasValue text)) (Execute_loop buf k ts text)
      | ruleAction7 \<Rightarrow> map_option ((#) (addParamRefValue text)) (Execute_loop buf k ts text)
      | ruleAction8 \<Rightarrow> map_option ((#) (addParamCidrValue text)) (Execute_loop buf k ts text)
      | ruleAction9 \<Rightarrow> map_option ((#) (addParamIpValue text)) (Execute_loop buf k ts text)
      | ruleAction10 \<Rightarrow> map_option ((#) (addParamValue text)) (Execute_loop buf k ts text)
      | ruleAction11 \<Rightarrow> map_option ((#) (addParamIntValue text)) (Execute_loop buf k ts text)
      | ruleAction12 \<Rightarrow> map_option ((#) (addParamValue text)) (Execute_loop buf k ts text)
      | ruleAction13 \<Rightarrow> map_option ((#) LineDone) (Execute_loop buf k ts text)
      | _ \<Rightarrow> Execute_loop buf k ts text)"

definition Execute :: "Peg \<Rightarrow> call list option" where
  "Execute p = Execute_loop (buffer p) (spare p) (Tokens (tokens32 p)) []"

text \<open>A parser for a text, as the callers make it: the struct with \<^verbatim>\<open>Buffer\<close> set,
  then \<^verbatim>\<open>Init\<close>; \<open>k\<close> is the spare capacity that the runtime gives to the rune slice.\<close>

definition new_Peg :: "nat \<Rightarrow> rune list \<Rightarrow> Peg" where
  "new_Peg k text =
     Init k \<lparr>Buffer = text, buffer = [], spare = 0, Pretty = False,
             tokens32 = \<lparr>tree = [], unused = 0, len_tree = 0\<rparr>,
             vars = \<lparr>position = 0, tokenIndex = 0,
                     store = \<lparr>tree = [], unused = 0, len_tree = 0\<rparr>,
                     maxTok = token_zero\<rparr>\<rparr>"

text \<open>\<^verbatim>\<open>Parse\<close> on a new parser and, when it returns \<^verbatim>\<open>nil\<close>, \<^verbatim>\<open>Execute\<close>: the calls
  made (\<open>Inr\<close>), the error returned (\<open>Inl\<close>), or \<open>None\<close> for a panic.\<close>

definition run :: "nat \<Rightarrow> rune list \<Rightarrow> (parseError + call list) option" where
  "run k text =
     (case Parse (new_Peg k text) of
        None \<Rightarrow> None
      | Some (Some e, p) \<Rightarrow> Some (Inl e)
      | Some (None, p) \<Rightarrow> map_option Inr (Execute p))"


section \<open>Tree reconstruction\<close>

text \<open>
  \<^verbatim>\<open>node32\<close> has the token and the pointers \<^verbatim>\<open>up\<close> (first child) and \<^verbatim>\<open>next\<close> (next
  sibling). \<^verbatim>\<open>AST\<close> sets \<^verbatim>\<open>next\<close> of a node once, when the node is popped, and a popped
  node is reachable from its parent only, so a node is given here with the list of
  its children: \<^verbatim>\<open>up\<close>, \<^verbatim>\<open>up.next\<close>, \<^verbatim>\<open>up.next.next\<close> and so on.
\<close>

datatype node32 = Node32 (token: token32) (children: "node32 list")

text \<open>The inner loop of \<^verbatim>\<open>AST\<close>: while the stack is not empty and its top lies
  within the token, the top is popped and put in front of \<^verbatim>\<open>node.up\<close>.\<close>

fun AST_pop :: "token32 \<Rightarrow> node32 list \<Rightarrow> node32 list \<Rightarrow> node32 list \<times> node32 list" where
  "AST_pop t up [] = (up, [])"
| "AST_pop t up (n # stack) =
     (if tbegin (token n) \<ge> tbegin t \<and> tend (token n) \<le> tend t
      then AST_pop t (n # up) stack
      else (up, n # stack))"

text \<open>The outer loop over the tokens; the stack has its top first.\<close>

fun AST_loop :: "token32 list \<Rightarrow> node32 list \<Rightarrow> node32 list" where
  "AST_loop [] stack = stack"
| "AST_loop (t # ts) stack =
     (if tbegin t = tend t then AST_loop ts stack
      else (case AST_pop t [] stack of
              (up, stack') \<Rightarrow> AST_loop ts (Node32 t up # stack')))"

text \<open>\<^verbatim>\<open>AST\<close> returns the node on top of the stack, or \<^verbatim>\<open>nil\<close>.\<close>

definition AST :: "tokens32 \<Rightarrow> node32 option" where
  "AST t = (case AST_loop (Tokens t) [] of [] \<Rightarrow> None | n # stack \<Rightarrow> Some n)"

section \<open>Error report\<close>

record textPosition =
  line :: nat
  symbol :: nat

text \<open>The loop \<^verbatim>\<open>search\<close> of \<^verbatim>\<open>translatePositions\<close>: \<open>i\<close> is the index of the rune \<open>c\<close>,
  \<open>ps\<close> is \<^verbatim>\<open>positions[j:]\<close>. Reading \<^verbatim>\<open>positions[j]\<close> in an empty slice is a panic.\<close>

fun translate_search ::
  "rune list \<Rightarrow> nat \<Rightarrow> nat list \<Rightarrow> nat \<Rightarrow> nat \<Rightarrow> (nat \<rightharpoonup> textPosition)
     \<Rightarrow> (nat \<rightharpoonup> textPosition) option" where
  "translate_search [] i ps ln sy tr = Some tr"
| "translate_search (c # cs) i ps ln sy tr =
     (let ln' = (if c = rune CHR 0x0A then ln + 1 else ln);
          sy' = (if c = rune CHR 0x0A then 0 else sy + 1)
      in case ps of
           [] \<Rightarrow> None
         | p # ps' \<Rightarrow>
             if i = p
             then (let tr' = tr(p \<mapsto> \<lparr>line = ln', symbol = sy'\<rparr>);
                       rest = dropWhile (\<lambda>q. i = q) ps'
                   in if rest = [] then Some tr'
                      else translate_search cs (i + 1) rest ln' sy' tr')
             else translate_search cs (i + 1) ps ln' sy' tr)"

definition translatePositions :: "rune list \<Rightarrow> nat list \<Rightarrow> (nat \<rightharpoonup> textPosition) option" where
  "translatePositions buf positions = translate_search buf 0 (sort positions) 1 0 Map.empty"

text \<open>Reading a key that a Go map does not hold gives the zero value.\<close>

definition translation :: "(nat \<rightharpoonup> textPosition) \<Rightarrow> nat \<Rightarrow> textPosition" where
  "translation tr k = (case tr k of None \<Rightarrow> \<lparr>line = 0, symbol = 0\<rparr> | Some v \<Rightarrow> v)"

text \<open>\<^verbatim>\<open>%v\<close> of a non-negative \<^verbatim>\<open>int\<close>.\<close>

function itoa :: "nat \<Rightarrow> string" where
  "itoa n = (if n < 10 then [char_of (48 + n)] else itoa (n div 10) @ [char_of (48 + n mod 10)])"
  by pat_completeness auto
termination
  by (relation "measure (\<lambda>n. n)") auto

declare itoa.simps [simp del]

text \<open>\<^verbatim>\<open>fmt.Sprintf(format, ...)\<close> with the two formats of \<^verbatim>\<open>Error\<close>; the last argument is
  the quoted text as \<^verbatim>\<open>strconv.Quote\<close> returned it.\<close>

definition Sprintf_format :: "bool \<Rightarrow> string \<Rightarrow> nat \<Rightarrow> nat \<Rightarrow> nat \<Rightarrow> nat \<Rightarrow> string \<Rightarrow> string" where
  "Sprintf_format pretty name l1 s1 l2 s2 quoted =
     ''parse error near '' @
     (if pretty then [CHR 0x1B] @ ''[34m'' @ name @ [CHR 0x1B] @ ''[m'' else name) @
     '' (line '' @ itoa l1 @ '' symbol '' @ itoa s1 @
     '' - line '' @ itoa l2 @ '' symbol '' @ itoa s2 @ ''):'' @ [CHR 0x0A] @
     quoted @ [CHR 0x0A]"

text \<open>The arguments that \<^verbatim>\<open>parseError.Error\<close> passes to \<^verbatim>\<open>fmt.Sprintf\<close> after the
  format: the name of the rule of \<^verbatim>\<open>max\<close>, line and symbol of its \<^verbatim>\<open>begin\<close> and of its
  \<^verbatim>\<open>end\<close>, and the text \<^verbatim>\<open>string(buffer[begin:end])\<close> that is quoted.\<close>

definition Error_args :: "parseError \<Rightarrow> (string \<times> nat \<times> nat \<times> nat \<times> nat \<times> rune list) option" where
  "Error_args e =
     (let m = err_max e; buf = buffer (err_p e)
      in case translatePositions buf [tbegin m, tend m] of
           None \<Rightarrow> None
         | Some tr \<Rightarrow>
             (case slice buf (spare (err_p e)) (tbegin m) (tend m) of
                None \<Rightarrow> None
              | Some rs \<Rightarrow>
                  Some (rul3s (pegRule m),
                        line (translation tr (tbegin m)), symbol (translation tr (tbegin m)),
                        line (translation tr (tend m)), symbol (translation tr (tend m)),
                        string_of rs)))"

text \<open>\<^verbatim>\<open>parseError.Error\<close>. The library function \<^verbatim>\<open>strconv.Quote\<close> is the parameter
  \<open>Quote\<close>.\<close>

definition Error :: "(rune list \<Rightarrow> string) \<Rightarrow> parseError \<Rightarrow> string option" where
  "Error Quote e =
     (case Error_args e of
        None \<Rightarrow> None
      | Some (name, l1, s1, l2, s2, txt) \<Rightarrow>
          Some ([CHR 0x0A] @ Sprintf_format (Pretty (err_p e)) name l1 s1 l2 s2 (Quote txt)))"


section \<open>Properties of states and matchers\<close>

text \<open>The records that count: the cells of the store below \<^verbatim>\<open>tokenIndex\<close>.\<close>

definition visible :: "state \<Rightarrow> token32 list" where
  "visible s = take (tokenIndex s) (cells (store s))"

text \<open>
  The invariant of the engine for a buffer that ends with \<^verbatim>\<open>endSymbol\<close>, as \<^verbatim>\<open>reset\<close>
  leaves it: \<^verbatim>\<open>position\<close> is an index of the buffer, \<^verbatim>\<open>tokenIndex\<close> is not beyond the
  cells assigned so far, the store is not empty and as long as its capacity (the
  closures never trim it), every record below \<^verbatim>\<open>tokenIndex\<close> ends at or before
  \<^verbatim>\<open>position\<close>, and \<^verbatim>\<open>max\<close> lies in the buffer.
\<close>

definition inv :: "rune list \<Rightarrow> state \<Rightarrow> bool" where
  "inv buf s \<longleftrightarrow>
     buf \<noteq> [] \<and> last buf = endSymbol \<and> position s < length buf \<and>
     tokenIndex s \<le> length (tree (store s)) \<and> 0 \<le> unused (store s) \<and>
     0 < len_tree (store s) \<and> len_tree (store s) = cap_tree (store s) \<and>
     (\<forall>t \<in> set (take (tokenIndex s) (tree (store s))). tbegin t \<le> tend t \<and> tend t \<le> position s) \<and>
     tbegin (maxTok s) \<le> tend (maxTok s) \<and> tend (maxTok s) < length buf"

text \<open>\<open>ext s s'\<close>: from \<open>s\<close> to \<open>s'\<close> the pair has not moved back, the records below the
  \<^verbatim>\<open>tokenIndex\<close> of \<open>s\<close> are the same, and \<^verbatim>\<open>max\<close> is the same or a record that is not
  empty and ends further.\<close>

definition ext :: "state \<Rightarrow> state \<Rightarrow> bool" where
  "ext s s' \<longleftrightarrow>
     position s \<le> position s' \<and> tokenIndex s \<le> tokenIndex s' \<and>
     take (tokenIndex s) (tree (store s')) = take (tokenIndex s) (tree (store s)) \<and>
     (maxTok s' = maxTok s \<or>
      tend (maxTok s) < tend (maxTok s') \<and> tbegin (maxTok s') < tend (maxTok s'))"

text \<open>A matcher is sound when, from a state of the invariant, it returns (no panic,
  no endless loop) in a state of the invariant that extends the first.\<close>

definition sound :: "rune list \<Rightarrow> matcher \<Rightarrow> bool" where
  "sound buf m \<longleftrightarrow>
     (\<forall>s. inv buf s \<longrightarrow> (\<exists>b s'. m s = Some (b, s') \<and> inv buf s' \<and> ext s s'))"

text \<open>A matcher is consuming when its success moves \<^verbatim>\<open>position\<close> forward.\<close>

definition consuming :: "rune list \<Rightarrow> matcher \<Rightarrow> bool" where
  "consuming buf m \<longleftrightarrow>
     (\<forall>s s'. inv buf s \<longrightarrow> m s = Some (True, s') \<longrightarrow> position s < position s')"


text \<open>What is left of an attempt when a matcher returns \<open>False\<close>: the pair and the
  visible records are as on entry, and \<^verbatim>\<open>max\<close> is as on entry or a record, not empty
  and ending further, that was added during the attempt.\<close>

definition failure_effect :: "rune list \<Rightarrow> matcher \<Rightarrow> bool" where
  "failure_effect buf m \<longleftrightarrow>
     (\<forall>s s'. inv buf s \<longrightarrow> m s = Some (False, s') \<longrightarrow>
        position s' = position s \<and> tokenIndex s' = tokenIndex s \<and> visible s' = visible s \<and>
        (maxTok s' = maxTok s \<or>
         tend (maxTok s) < tend (maxTok s') \<and> tbegin (maxTok s') < tend (maxTok s')))"

text \<open>Counting records and calls.\<close>

definition count_rule :: "pegRule \<Rightarrow> token32 list \<Rightarrow> nat" where
  "count_rule r ts = length (filter (\<lambda>t. pegRule t = r) ts)"

text \<open>A \<open>Comment\<close> record of the second alternative begins at a \<^verbatim>\<open>/\<close>, one of the first
  alternative at a \<^verbatim>\<open>#\<close>.\<close>

definition slash_comment :: "rune list \<Rightarrow> token32 \<Rightarrow> bool" where
  "slash_comment buf t \<longleftrightarrow>
     pegRule t = ruleComment \<and> rune_at buf (tbegin t) = Some (rune CHR ''/'')"

definition hash_comment :: "rune list \<Rightarrow> token32 \<Rightarrow> bool" where
  "hash_comment buf t \<longleftrightarrow>
     pegRule t = ruleComment \<and> rune_at buf (tbegin t) = Some (rune CHR ''#'')"

definition count_slash :: "rune list \<Rightarrow> token32 list \<Rightarrow> nat" where
  "count_slash buf ts = length (filter (slash_comment buf) ts)"

definition count_hash :: "rune list \<Rightarrow> token32 list \<Rightarrow> nat" where
  "count_hash buf ts = length (filter (hash_comment buf) ts)"

definition count_LineDone :: "call list \<Rightarrow> nat" where
  "count_LineDone cs = length (filter (\<lambda>c. c = LineDone) cs)"

text \<open>The balance of a state: \<open>Action3\<close> records minus \<open>Expr\<close> records, and \<open>Action13\<close>
  records minus \<open>Comment\<close> records that begin at a \<^verbatim>\<open>/\<close>, among the visible records.\<close>

definition d3 :: "state \<Rightarrow> int" where
  "d3 s = int (count_rule ruleAction3 (visible s)) - int (count_rule ruleExpr (visible s))"

definition d13 :: "rune list \<Rightarrow> state \<Rightarrow> int" where
  "d13 buf s = int (count_rule ruleAction13 (visible s)) - int (count_slash buf (visible s))"

definition dhash :: "rune list \<Rightarrow> state \<Rightarrow> int" where
  "dhash buf s =
     int (count_rule ruleComment (visible s)) - int (count_slash buf (visible s))
       - int (count_hash buf (visible s))"

text \<open>\<open>acct buf m a b\<close>: a success of \<open>m\<close> changes the two balances by \<open>a\<close> and \<open>b\<close> and
  adds no \<open>Comment\<close> record other than one that begins at \<^verbatim>\<open>/\<close> or \<^verbatim>\<open>#\<close>.\<close>

definition acct :: "rune list \<Rightarrow> matcher \<Rightarrow> int \<Rightarrow> int \<Rightarrow> bool" where
  "acct buf m a b \<longleftrightarrow>
     (\<forall>s s'. inv buf s \<longrightarrow> m s = Some (True, s') \<longrightarrow>
        d3 s' = d3 s + a \<and> d13 buf s' = d13 buf s + b \<and> dhash buf s' = dhash buf s)"

text \<open>The rules whose records do not count.\<close>

definition plain :: "pegRule \<Rightarrow> bool" where
  "plain r \<longleftrightarrow> r \<noteq> ruleAction3 \<and> r \<noteq> ruleAction13 \<and> r \<noteq> ruleExpr \<and> r \<noteq> ruleComment"

text \<open>\<open>first_in buf m A\<close>: \<open>m\<close> succeeds only where the current rune is in \<open>A\<close>.\<close>

definition first_in :: "rune list \<Rightarrow> matcher \<Rightarrow> rune set \<Rightarrow> bool" where
  "first_in buf m A \<longleftrightarrow>
     (\<forall>s s'. m s = Some (True, s') \<longrightarrow> (\<exists>c \<in> A. rune_at buf (position s) = Some c))"

text \<open>The runes that are neither spacing nor the end symbol.\<close>

definition solid :: "rune set" where
  "solid = {c. c \<noteq> rune CHR '' '' \<and> c \<noteq> rune CHR 0x09 \<and> c \<noteq> rune CHR 0x0A \<and>
               c \<noteq> rune CHR 0x0D \<and> c \<noteq> endSymbol}"

text \<open>What the scan of \<^verbatim>\<open>translatePositions\<close> computes for an offset \<open>k\<close>: the line is one
  more than the number of \<^verbatim>\<open>'\n'\<close> among the runes up to and including \<open>k\<close>, and the
  symbol is the number of runes after the last \<^verbatim>\<open>'\n'\<close> up to and including \<open>k\<close>.\<close>

definition line_of :: "rune list \<Rightarrow> nat \<Rightarrow> nat" where
  "line_of buf k = 1 + length (filter (\<lambda>c. c = rune CHR 0x0A) (take (Suc k) buf))"

definition symbol_of :: "rune list \<Rightarrow> nat \<Rightarrow> nat" where
  "symbol_of buf k = length (takeWhile (\<lambda>c. c \<noteq> rune CHR 0x0A) (rev (take (Suc k) buf)))"

section \<open>The specified shape of values\<close>

text \<open>
  The grammar of values as the specification words it, without the engine: a shape
  is a function from the offset where a match is tried to the offset where it ends
  (\<open>None\<close>: no match). \<open>one_of\<close> is one rune of a class, \<open>many\<close> the longest run of
  runes of a class (it may be empty), \<open>many1\<close> a run that is not empty, and \<open>chain\<close>
  one shape after another.
\<close>

type_synonym shape = "nat \<Rightarrow> nat option"

definition one_of :: "rune list \<Rightarrow> (rune \<Rightarrow> bool) \<Rightarrow> shape" where
  "one_of buf P i = (case rune_at buf i of None \<Rightarrow> None | Some c \<Rightarrow> if P c then Some (Suc i) else None)"

definition many :: "rune list \<Rightarrow> (rune \<Rightarrow> bool) \<Rightarrow> shape" where
  "many buf P i = Some (i + length (takeWhile P (drop i buf)))"

fun chain :: "shape list \<Rightarrow> shape" where
  "chain [] = Some"
| "chain [f] = f"
| "chain (f # fs) = (\<lambda>i. Option.bind (f i) (chain fs))"

definition many1 :: "rune list \<Rightarrow> (rune \<Rightarrow> bool) \<Rightarrow> shape" where
  "many1 buf P = chain [one_of buf P, many buf P]"

text \<open>The classes of runes: \<open>digit\<close>, \<open>ASCII letter\<close>, the runes of an \<open>Identifier\<close> and
  of a \<open>StringValue\<close>, \<open>WS\<close>, and \<open>ANY\<close>, which is every rune but the end mark.\<close>

definition digit_rune :: "rune \<Rightarrow> bool" where
  "digit_rune c \<longleftrightarrow> rune CHR ''0'' \<le> c \<and> c \<le> rune CHR ''9''"

definition letter_rune :: "rune \<Rightarrow> bool" where
  "letter_rune c \<longleftrightarrow>
     rune CHR ''A'' \<le> c \<and> c \<le> rune CHR ''Z'' \<or> rune CHR ''a'' \<le> c \<and> c \<le> rune CHR ''z''"

definition identifier_rune :: "rune \<Rightarrow> bool" where
  "identifier_rune c \<longleftrightarrow>
     letter_rune c \<or> c = rune CHR ''-'' \<or> c = rune CHR ''_'' \<or> c = rune CHR ''.''"

definition stringvalue_rune :: "rune \<Rightarrow> bool" where
  "stringvalue_rune c \<longleftrightarrow>
     letter_rune c \<or> digit_rune c \<or> c = rune CHR ''/'' \<or> c = rune CHR '':'' \<or>
     c = rune CHR ''_'' \<or> c = rune CHR ''.'' \<or> c = rune CHR ''-''"

definition whitespace_rune :: "rune \<Rightarrow> bool" where
  "whitespace_rune c \<longleftrightarrow> c = rune CHR '' '' \<or> c = rune CHR 0x09"

definition any_rune :: "rune \<Rightarrow> bool" where
  "any_rune c \<longleftrightarrow> c \<noteq> endSymbol"

text \<open>\<^verbatim>\<open>CidrValue = digit+ ANY digit+ ANY digit+ ANY digit+ "/" digit+\<close>,
  \<^verbatim>\<open>IpValue = digit+ ANY digit+ ANY digit+ ANY digit+\<close>,
  \<^verbatim>\<open>IntRangeValue = digit+ "-" digit+\<close>, \<^verbatim>\<open>IntValue = digit+\<close>,
  \<^verbatim>\<open>Identifier = (ASCII letter | '-' | '_' | '.')+\<close>,
  \<^verbatim>\<open>StringValue = (ASCII letter|digit|'/'|':'|'_'|'.'|'-')+\<close>,
  \<^verbatim>\<open>"$" Identifier\<close>, \<^verbatim>\<open>"@" Identifier\<close> and \<^verbatim>\<open>"{" WS Identifier WS "}"\<close>.\<close>

definition Cidr_shape :: "rune list \<Rightarrow> shape" where
  "Cidr_shape buf =
     chain [many1 buf digit_rune, one_of buf any_rune, many1 buf digit_rune, one_of buf any_rune,
            many1 buf digit_rune, one_of buf any_rune, many1 buf digit_rune,
            one_of buf ((=) (rune CHR ''/'')), many1 buf digit_rune]"

definition Ip_shape :: "rune list \<Rightarrow> shape" where
  "Ip_shape buf =
     chain [many1 buf digit_rune, one_of buf any_rune, many1 buf digit_rune, one_of buf any_rune,
            many1 buf digit_rune, one_of buf any_rune, many1 buf digit_rune]"

definition IntRange_shape :: "rune list \<Rightarrow> shape" where
  "IntRange_shape buf =
     chain [many1 buf digit_rune, one_of buf ((=) (rune CHR ''-'')), many1 buf digit_rune]"

definition Int_shape :: "rune list \<Rightarrow> shape" where
  "Int_shape buf = many1 buf digit_rune"

definition Identifier_shape :: "rune list \<Rightarrow> shape" where
  "Identifier_shape buf = many1 buf identifier_rune"

definition String_shape :: "rune list \<Rightarrow> shape" where
  "String_shape buf = many1 buf stringvalue_rune"

definition Ref_shape :: "rune list \<Rightarrow> shape" where
  "Ref_shape buf = chain [one_of buf ((=) (rune CHR ''$'')), Identifier_shape buf]"

definition Alias_shape :: "rune list \<Rightarrow> shape" where
  "Alias_shape buf = chain [one_of buf ((=) (rune CHR ''@'')), Identifier_shape buf]"

definition Hole_shape :: "rune list \<Rightarrow> shape" where
  "Hole_shape buf =
     chain [one_of buf ((=) (rune CHR ''{'')), many buf whitespace_rune, Identifier_shape buf,
            many buf whitespace_rune, one_of buf ((=) (rune CHR ''}''))]"

text \<open>The text of the buffer from \<open>b\<close> to \<open>e\<close>, as a string.\<close>

definition text_of :: "rune list \<Rightarrow> nat \<Rightarrow> nat \<Rightarrow> rune list" where
  "text_of buf b e = string_of (take (e - b) (drop b buf))"

text \<open>A hole: the brace, white space, the identifier, which is the text of the call,
  white space, the closing brace.\<close>

definition Hole_spec :: "rune list \<Rightarrow> nat \<Rightarrow> (call \<times> nat) option" where
  "Hole_spec buf i =
     (case many buf whitespace_rune (Suc i) of
        None \<Rightarrow> None
      | Some j \<Rightarrow>
          (case Identifier_shape buf j of
             None \<Rightarrow> None
           | Some m \<Rightarrow>
               (case many buf whitespace_rune m of
                  None \<Rightarrow> None
                | Some n \<Rightarrow>
                    (case one_of buf ((=) (rune CHR ''}'')) n of
                       None \<Rightarrow> None
                     | Some e \<Rightarrow> Some (addParamHoleValue (text_of buf j m), e)))))"

text \<open>
  The dispatch of a value at offset \<open>i\<close> as the specification gives it: the call
  made and the offset where the value ends, or \<open>None\<close> when there is no value. The
  alternatives are tried in the fixed order Cidr, Ip, IntRange, Int; when none of the
  four matches, the rune at \<open>i\<close> decides between a reference (\<^verbatim>\<open>$\<close>), an alias (\<^verbatim>\<open>@\<close>),
  a hole (\<^verbatim>\<open>{\<close>) and, for any other rune, a string value. The text of a reference
  and of an alias is the identifier after the mark.
\<close>

definition Value_spec :: "rune list \<Rightarrow> nat \<Rightarrow> (call \<times> nat) option" where
  "Value_spec buf i =
     (case Cidr_shape buf i of
        Some e \<Rightarrow> Some (addParamCidrValue (text_of buf i e), e)
      | None \<Rightarrow>
     (case Ip_shape buf i of
        Some e \<Rightarrow> Some (addParamIpValue (text_of buf i e), e)
      | None \<Rightarrow>
     (case IntRange_shape buf i of
        Some e \<Rightarrow> Some (addParamValue (text_of buf i e), e)
      | None \<Rightarrow>
     (case Int_shape buf i of
        Some e \<Rightarrow> Some (addParamIntValue (text_of buf i e), e)
      | None \<Rightarrow>
     (case rune_at buf i of
        None \<Rightarrow> None
      | Some c \<Rightarrow>
          if c = rune CHR ''$''
          then map_option (\<lambda>e. (addParamRefValue (text_of buf (Suc i) e), e))
                 (Identifier_shape buf (Suc i))
          else if c = rune CHR ''@''
          then map_option (\<lambda>e. (addParamAliasValue (text_of buf (Suc i) e), e))
                 (Identifier_shape buf (Suc i))
          else if c = rune CHR ''{'' then Hole_spec buf i
          else map_option (\<lambda>e. (addParamValue (text_of buf i e), e)) (String_shape buf i))))))"

text \<open>
  The link between the engine and the shapes. A rule is silent when \<^verbatim>\<open>Execute\<close> has no
  case for it, and a list of records is quiet when all its rules are silent.
  \<open>yields buf m f Q\<close>: from a state of the invariant at offset \<open>i\<close>, the matcher \<open>m\<close>
  returns \<^verbatim>\<open>false\<close> when \<open>f i\<close> is \<open>None\<close>, and when \<open>f i\<close> is \<open>Some e\<close> it returns
  \<^verbatim>\<open>true\<close> at offset \<open>e\<close>, having added visible records \<open>ts\<close> with \<open>Q i ts\<close>.
  \<open>captured b e ts\<close>: among the records \<open>ts\<close> only one is not silent, the \<open>PegText\<close>
  record from \<open>b\<close> to \<open>e\<close>. \<open>calls buf ts c\<close>: over the records \<open>ts\<close>, whatever follows
  them, \<^verbatim>\<open>Execute\<close> makes the call \<open>c\<close> and no other.
\<close>

definition silent :: "pegRule \<Rightarrow> bool" where
  "silent r \<longleftrightarrow>
     r \<notin> set [rulePegText, ruleAction0, ruleAction1, ruleAction2, ruleAction3, ruleAction4,
               ruleAction5, ruleAction6, ruleAction7, ruleAction8, ruleAction9, ruleAction10,
               ruleAction11, ruleAction12, ruleAction13]"

definition quiet :: "token32 list \<Rightarrow> bool" where
  "quiet ts \<longleftrightarrow> (\<forall>t \<in> set ts. silent (pegRule t))"

definition yields :: "rune list \<Rightarrow> matcher \<Rightarrow> shape \<Rightarrow> (nat \<Rightarrow> token32 list \<Rightarrow> bool) \<Rightarrow> bool" where
  "yields buf m f Q \<longleftrightarrow>
     (\<forall>s. inv buf s \<longrightarrow>
        (\<exists>b s'. m s = Some (b, s') \<and>
           (case f (position s) of
              None \<Rightarrow> \<not> b
            | Some e \<Rightarrow> b \<and> position s' = e \<and>
                (\<exists>ts. visible s' = visible s @ ts \<and> Q (position s) ts))))"

definition captured :: "nat \<Rightarrow> nat \<Rightarrow> token32 list \<Rightarrow> bool" where
  "captured tb te ts \<longleftrightarrow>
     (\<exists>q1 q2. ts = q1 @ \<lparr>pegRule = rulePegText, tbegin = tb, tend = te\<rparr> # q2 \<and> quiet q1 \<and> quiet q2)"

definition calls :: "rune list \<Rightarrow> token32 list \<Rightarrow> call \<Rightarrow> bool" where
  "calls buf ts c \<longleftrightarrow>
     (\<forall>k reg rest. \<exists>reg'.
        Execute_loop buf k (ts @ rest) reg = map_option ((#) c) (Execute_loop buf k rest reg'))"


section \<open>The engine keeps the invariant\<close>

lemma rune_at_Some: "rune_at buf i = Some c \<longleftrightarrow> i < length buf \<and> buf ! i = c"
proof (induction buf arbitrary: i)
  case Nil
  then show ?case by simp
next
  case (Cons x xs)
  then show ?case by (cases i) auto
qed

lemma rune_at_None: "rune_at buf i = None \<longleftrightarrow> length buf \<le> i"
proof (induction buf arbitrary: i)
  case Nil
  then show ?case by simp
next
  case (Cons x xs)
  then show ?case by (cases i) auto
qed

lemma before_sentinel:
  assumes "buf \<noteq> []" "last buf = endSymbol" "rune_at buf i = Some c" "c \<noteq> endSymbol"
  shows "Suc i < length buf"
proof -
  from assms(3) have i: "i < length buf" and c: "buf ! i = c"
    by (simp_all add: rune_at_Some)
  have "i \<noteq> length buf - 1"
    using assms(1,2,4) c by (auto simp: last_conv_nth)
  with i show ?thesis by simp
qed

lemma ext_refl: "ext s s"
  by (simp add: ext_def)

lemma ext_trans:
  assumes "ext s t" "ext t u"
  shows "ext s u"
proof -
  from assms have le: "tokenIndex s \<le> tokenIndex t"
    by (simp add: ext_def)
  have "take (tokenIndex s) (tree (store u)) =
      take (tokenIndex s) (take (tokenIndex t) (tree (store u)))"
    using le by (simp add: min.absorb1)
  also have "\<dots> = take (tokenIndex s) (take (tokenIndex t) (tree (store t)))"
    using assms(2) by (simp add: ext_def)
  also have "\<dots> = take (tokenIndex s) (tree (store s))"
    using le assms(1) by (simp add: ext_def min.absorb1)
  finally have tk: "take (tokenIndex s) (tree (store u)) = take (tokenIndex s) (tree (store s))" .
  have mx: "maxTok u = maxTok s \<or>
      tend (maxTok s) < tend (maxTok u) \<and> tbegin (maxTok u) < tend (maxTok u)"
    using assms unfolding ext_def by (elim conjE disjE) auto
  from assms have "position s \<le> position u" "tokenIndex s \<le> tokenIndex u"
    by (simp_all add: ext_def)
  with tk mx show ?thesis by (simp add: ext_def)
qed

lemma inv_in_range: "inv buf s \<Longrightarrow> \<exists>c. rune_at buf (position s) = Some c"
  by (simp add: inv_def rune_at_Some)

lemma advance_ok:
  assumes "inv buf s" "rune_at buf (position s) = Some c" "c \<noteq> endSymbol"
  shows "inv buf (s\<lparr>position := position s + 1\<rparr>) \<and> ext s (s\<lparr>position := position s + 1\<rparr>)"
proof -
  have "Suc (position s) < length buf"
    using assms before_sentinel by (simp add: inv_def)
  with assms(1) show ?thesis
    by (auto simp: inv_def ext_def)
qed

lemma restore_ok:
  assumes "inv buf s" "inv buf s1" "ext s s1"
  shows "inv buf (restore s s1) \<and> ext s (restore s s1)"
  using assms unfolding inv_def ext_def restore_def
  by (auto simp: cap_tree_def)

text \<open>What \<^verbatim>\<open>add\<close> does in a state of the invariant: the record is written at
  \<^verbatim>\<open>tokenIndex\<close>, which goes up by one, and \<^verbatim>\<open>max\<close> is replaced when the record is
  not empty and ends beyond it.\<close>

lemma add_ok:
  assumes "inv buf s" "b \<le> position s"
  shows "\<exists>s'. add r b s = Some s' \<and> inv buf s' \<and> ext s s' \<and>
           position s' = position s \<and> tokenIndex s' = Suc (tokenIndex s) \<and>
           take (Suc (tokenIndex s)) (tree (store s')) =
             take (tokenIndex s) (tree (store s)) @ [\<lparr>pegRule = r, tbegin = b, tend = position s\<rparr>] \<and>
           maxTok s' = (if b \<noteq> position s \<and> tend (maxTok s) < position s
                        then \<lparr>pegRule = r, tbegin = b, tend = position s\<rparr> else maxTok s)"
proof -
  let ?t = "store s" and ?i = "tokenIndex s"
  let ?tok = "\<lparr>pegRule = r, tbegin = b, tend = position s\<rparr>"
  let ?tree = "if ?i < length (tree ?t) then (tree ?t)[?i := ?tok] else tree ?t @ [?tok]"
  from assms(1) have i: "?i \<le> length (tree ?t)" and u: "0 \<le> unused ?t" and l: "0 < len_tree ?t"
    and c: "len_tree ?t = int (length (tree ?t)) + unused ?t"
    by (simp_all add: inv_def cap_tree_def)
  have "\<exists>t'. Add r b (position s) ?i ?t = Some t' \<and> tree t' = ?tree \<and> 0 \<le> unused t' \<and>
          0 < len_tree t' \<and> len_tree t' = cap_tree t'"
  proof (cases "?i < length (tree ?t)")
    case True
    then show ?thesis using u l c by (auto simp: Add_def cap_tree_def Let_def)
  next
    case False
    with i have eq: "?i = length (tree ?t)" by simp
    show ?thesis
    proof (cases "unused ?t = 0")
      case True
      with l c have "0 < length (tree ?t)" "nat (len_tree ?t) = length (tree ?t)" by simp_all
      with True eq c show ?thesis by (auto simp: Add_def cap_tree_def Let_def)
    next
      case False
      with u have "0 < unused ?t" by simp
      with eq c show ?thesis by (auto simp: Add_def cap_tree_def Let_def)
    qed
  qed
  then obtain t' where t': "Add r b (position s) ?i ?t = Some t'" "tree t' = ?tree"
      "0 \<le> unused t'" "0 < len_tree t'" "len_tree t' = cap_tree t'"
    by blast
  have pre: "take ?i ?tree = take ?i (tree ?t)"
    using i by auto
  have suc: "take (Suc ?i) ?tree = take ?i (tree ?t) @ [?tok]"
    using i by (auto simp: take_Suc_conv_app_nth)
  define s1 where "s1 = s\<lparr>store := t', tokenIndex := ?i + 1\<rparr>"
  define s' where "s' = (if b \<noteq> position s \<and> position s > tend (maxTok s)
                         then s1\<lparr>maxTok := ?tok\<rparr> else s1)"
  have r: "add r b s = Some s'"
    by (simp add: add_def t' s'_def s1_def Let_def)
  have len: "Suc ?i \<le> length ?tree"
    using i by auto
  have inv': "inv buf s'"
    using assms t' suc len unfolding inv_def s'_def s1_def
    by (auto simp del: take_Suc_conv_app_nth)
  have ext': "ext s s'"
    using pre t' assms(2) unfolding ext_def s'_def s1_def by auto
  show ?thesis
    using r inv' ext' suc t' unfolding s'_def s1_def by auto
qed


subsection \<open>Primitives\<close>

lemma soundI:
  assumes "\<And>s. inv buf s \<Longrightarrow> \<exists>b s'. m s = Some (b, s') \<and> inv buf s' \<and> ext s s'"
  shows "sound buf m"
  using assms by (simp add: sound_def)

lemma soundD:
  assumes "sound buf m" "inv buf s"
  obtains b s' where "m s = Some (b, s')" "inv buf s'" "ext s s'"
  using assms unfolding sound_def by blast

lemma sound_res:
  "sound buf m \<Longrightarrow> inv buf s \<Longrightarrow> m s = Some (b, s') \<Longrightarrow> inv buf s' \<and> ext s s'"
  unfolding sound_def by fastforce

lemma consumingD:
  "consuming buf m \<Longrightarrow> inv buf s \<Longrightarrow> m s = Some (True, s') \<Longrightarrow> position s < position s'"
  by (simp add: consuming_def)

lemma rune_below_endSymbol: "rune c \<noteq> endSymbol"
proof -
  have "(of_char c :: int) < 256"
    by (metis of_char_mod_256 pos_mod_bound zero_less_numeral)
  then show ?thesis by (simp add: rune_def endSymbol_def)
qed

lemma sound_lit: "c \<noteq> endSymbol \<Longrightarrow> sound buf (lit buf c)"
proof (rule soundI)
  fix s assume c: "c \<noteq> endSymbol" and i: "inv buf s"
  from i obtain x where x: "rune_at buf (position s) = Some x"
    using inv_in_range by blast
  show "\<exists>b s'. lit buf c s = Some (b, s') \<and> inv buf s' \<and> ext s s'"
  proof (cases "x = c")
    case True
    then show ?thesis using advance_ok [OF i x] c x by (auto simp: lit_def)
  next
    case False
    then show ?thesis using i x by (auto simp: lit_def ext_refl)
  qed
qed

lemma consuming_lit: "consuming buf (lit buf c)"
  by (auto simp: consuming_def lit_def split: option.splits if_splits)

lemma sound_range: "hi < endSymbol \<Longrightarrow> sound buf (range buf lo hi)"
proof (rule soundI)
  fix s assume h: "hi < endSymbol" and i: "inv buf s"
  from i obtain x where x: "rune_at buf (position s) = Some x"
    using inv_in_range by blast
  show "\<exists>b s'. range buf lo hi s = Some (b, s') \<and> inv buf s' \<and> ext s s'"
  proof (cases "x < lo \<or> x > hi")
    case True
    then show ?thesis using i x by (auto simp: range_def ext_refl)
  next
    case False
    with h have "x \<noteq> endSymbol" by auto
    then show ?thesis using advance_ok [OF i x] x False by (auto simp: range_def)
  qed
qed

lemma consuming_range: "consuming buf (range buf lo hi)"
  by (auto simp: consuming_def range_def split: option.splits if_splits)

lemma sound_matchDot: "sound buf (matchDot buf)"
proof (rule soundI)
  fix s assume i: "inv buf s"
  from i obtain x where x: "rune_at buf (position s) = Some x"
    using inv_in_range by blast
  show "\<exists>b s'. matchDot buf s = Some (b, s') \<and> inv buf s' \<and> ext s s'"
  proof (cases "x = endSymbol")
    case True
    then show ?thesis using i x by (auto simp: matchDot_def ext_refl)
  next
    case False
    then show ?thesis using advance_ok [OF i x] x by (auto simp: matchDot_def)
  qed
qed

lemma consuming_matchDot: "consuming buf (matchDot buf)"
  by (auto simp: consuming_def matchDot_def split: option.splits if_splits)

lemma sound_switch: "(\<And>c. sound buf (f c)) \<Longrightarrow> sound buf (switch buf f)"
proof (rule soundI)
  fix s assume f: "\<And>c. sound buf (f c)" and i: "inv buf s"
  from i obtain x where x: "rune_at buf (position s) = Some x"
    using inv_in_range by blast
  from f [of x] i obtain b s' where "f x s = Some (b, s')" "inv buf s'" "ext s s'"
    by (rule soundD)
  then show "\<exists>b s'. switch buf f s = Some (b, s') \<and> inv buf s' \<and> ext s s'"
    using x by (auto simp: switch_def)
qed

lemma consuming_switch: "(\<And>c. consuming buf (f c)) \<Longrightarrow> consuming buf (switch buf f)"
  by (auto simp: consuming_def switch_def split: option.splits)

subsection \<open>Combinators\<close>

lemma sound_seq:
  assumes "sound buf p" "sound buf q"
  shows "sound buf (seq p q)"
proof (rule soundI)
  fix s assume i: "inv buf s"
  from assms(1) i obtain b s1 where p: "p s = Some (b, s1)" "inv buf s1" "ext s s1"
    by (rule soundD)
  show "\<exists>b s'. seq p q s = Some (b, s') \<and> inv buf s' \<and> ext s s'"
  proof (cases b)
    case True
    from assms(2) p(2) obtain b2 s2 where q: "q s1 = Some (b2, s2)" "inv buf s2" "ext s1 s2"
      by (rule soundD)
    with p True show ?thesis
      by (auto simp: seq_def intro: ext_trans)
  next
    case False
    with p show ?thesis by (auto simp: seq_def)
  qed
qed

lemma seq_True:
  "seq p q s = Some (True, s') \<longleftrightarrow> (\<exists>s1. p s = Some (True, s1) \<and> q s1 = Some (True, s'))"
  by (auto simp: seq_def split: option.splits bool.splits)

lemma consuming_seq1:
  assumes "consuming buf p" "sound buf p" "sound buf q"
  shows "consuming buf (seq p q)"
  unfolding consuming_def
proof (intro allI impI)
  fix s s' assume i: "inv buf s" and r: "seq p q s = Some (True, s')"
  from r obtain s1 where p: "p s = Some (True, s1)" and q: "q s1 = Some (True, s')"
    by (auto simp: seq_True)
  from sound_res [OF assms(2) i p] have i1: "inv buf s1" by simp
  from sound_res [OF assms(3) i1 q] have "ext s1 s'" by simp
  moreover from assms(1) i p have "position s < position s1" by (rule consumingD)
  ultimately show "position s < position s'" by (simp add: ext_def)
qed

lemma consuming_seq2:
  assumes "consuming buf q" "sound buf p"
  shows "consuming buf (seq p q)"
  unfolding consuming_def
proof (intro allI impI)
  fix s s' assume i: "inv buf s" and r: "seq p q s = Some (True, s')"
  from r obtain s1 where p: "p s = Some (True, s1)" and q: "q s1 = Some (True, s')"
    by (auto simp: seq_True)
  from sound_res [OF assms(2) i p] have i1: "inv buf s1" and e: "ext s s1" by simp_all
  from assms(1) i1 q have "position s1 < position s'" by (rule consumingD)
  with e show "position s < position s'" by (simp add: ext_def)
qed

lemma sound_alt:
  assumes "sound buf p" "sound buf q"
  shows "sound buf (alt p q)"
proof (rule soundI)
  fix s assume i: "inv buf s"
  from assms(1) i obtain b s1 where p: "p s = Some (b, s1)" "inv buf s1" "ext s s1"
    by (rule soundD)
  show "\<exists>b s'. alt p q s = Some (b, s') \<and> inv buf s' \<and> ext s s'"
  proof (cases b)
    case True
    with p show ?thesis by (auto simp: alt_def)
  next
    case False
    from restore_ok [OF i p(2,3)] have r: "inv buf (restore s s1)" "ext s (restore s s1)"
      by simp_all
    from assms(2) r(1) obtain b2 s2 where
      q: "q (restore s s1) = Some (b2, s2)" "inv buf s2" "ext (restore s s1) s2"
      by (rule soundD)
    with p False r show ?thesis
      by (auto simp: alt_def intro: ext_trans)
  qed
qed

lemma alt_True:
  "alt p q s = Some (True, s') \<longleftrightarrow>
     p s = Some (True, s') \<or> (\<exists>s1. p s = Some (False, s1) \<and> q (restore s s1) = Some (True, s'))"
  by (auto simp: alt_def split: option.splits bool.splits)

lemma position_restore [simp]: "position (restore s s1) = position s"
  by (simp add: restore_def)

lemma tokenIndex_restore [simp]: "tokenIndex (restore s s1) = tokenIndex s"
  by (simp add: restore_def)

lemma store_restore [simp]: "store (restore s s1) = store s1"
  by (simp add: restore_def)

lemma maxTok_restore [simp]: "maxTok (restore s s1) = maxTok s1"
  by (simp add: restore_def)

lemma consuming_alt:
  assumes "consuming buf p" "consuming buf q" "sound buf p"
  shows "consuming buf (alt p q)"
  unfolding consuming_def
proof (intro allI impI)
  fix s s' assume i: "inv buf s" and r: "alt p q s = Some (True, s')"
  from r consider "p s = Some (True, s')"
    | s1 where "p s = Some (False, s1)" "q (restore s s1) = Some (True, s')"
    by (auto simp: alt_True)
  then show "position s < position s'"
  proof cases
    case 1
    with assms(1) i show ?thesis by (rule consumingD)
  next
    case 2
    from sound_res [OF assms(3) i 2(1)] have "inv buf s1" "ext s s1" by simp_all
    with i have "inv buf (restore s s1)" using restore_ok by blast
    from consumingD [OF assms(2) this 2(2)] have "position (restore s s1) < position s'" .
    then show ?thesis by simp
  qed
qed

lemma sound_opt:
  assumes "sound buf p"
  shows "sound buf (opt p)"
proof (rule soundI)
  fix s assume i: "inv buf s"
  from assms i obtain b s1 where p: "p s = Some (b, s1)" "inv buf s1" "ext s s1"
    by (rule soundD)
  with restore_ok [OF i p(2,3)] show "\<exists>b s'. opt p s = Some (b, s') \<and> inv buf s' \<and> ext s s'"
    by (cases b) (auto simp: opt_def)
qed

lemma sound_notp:
  assumes "sound buf p"
  shows "sound buf (notp p)"
proof (rule soundI)
  fix s assume i: "inv buf s"
  from assms i obtain b s1 where p: "p s = Some (b, s1)" "inv buf s1" "ext s s1"
    by (rule soundD)
  with restore_ok [OF i p(2,3)] show "\<exists>b s'. notp p s = Some (b, s') \<and> inv buf s' \<and> ext s s'"
    by (cases b) (auto simp: notp_def)
qed

lemma sound_rule_fn:
  assumes "sound buf p"
  shows "sound buf (rule_fn p)"
proof (rule soundI)
  fix s assume i: "inv buf s"
  from assms i obtain b s1 where p: "p s = Some (b, s1)" "inv buf s1" "ext s s1"
    by (rule soundD)
  with restore_ok [OF i p(2,3)] show "\<exists>b s'. rule_fn p s = Some (b, s') \<and> inv buf s' \<and> ext s s'"
    by (cases b) (auto simp: rule_fn_def)
qed

lemma rule_fn_True: "rule_fn p s = Some (True, s') \<longleftrightarrow> p s = Some (True, s')"
  by (auto simp: rule_fn_def split: option.splits bool.splits)

lemma rule_fn_False:
  "rule_fn p s = Some (False, s') \<longleftrightarrow> (\<exists>s1. p s = Some (False, s1) \<and> s' = restore s s1)"
  by (auto simp: rule_fn_def split: option.splits bool.splits)

lemma consuming_rule_fn: "consuming buf p \<Longrightarrow> consuming buf (rule_fn p)"
  by (simp add: consuming_def rule_fn_True)

lemma sound_tok:
  assumes "sound buf p"
  shows "sound buf (tok r p)"
proof (rule soundI)
  fix s assume i: "inv buf s"
  from assms i obtain b s1 where p: "p s = Some (b, s1)" "inv buf s1" "ext s s1"
    by (rule soundD)
  show "\<exists>b s'. tok r p s = Some (b, s') \<and> inv buf s' \<and> ext s s'"
  proof (cases b)
    case True
    from p(3) have "position s \<le> position s1" by (simp add: ext_def)
    from add_ok [OF p(2) this, of r] obtain s2 where
      "add r (position s) s1 = Some s2" "inv buf s2" "ext s1 s2"
      by blast
    with p True show ?thesis by (auto simp: tok_def intro: ext_trans)
  next
    case False
    with p show ?thesis by (auto simp: tok_def)
  qed
qed

lemma tok_True:
  "tok r p s = Some (True, s') \<longleftrightarrow>
     (\<exists>s1. p s = Some (True, s1) \<and> add r (position s) s1 = Some s')"
  by (auto simp: tok_def split: option.splits bool.splits)

lemma position_add: "add r b s = Some s' \<Longrightarrow> position s' = position s"
  by (auto simp: add_def Let_def split: option.splits if_splits)

lemma consuming_tok: "consuming buf p \<Longrightarrow> consuming buf (tok r p)"
  by (auto simp: consuming_def tok_True dest: position_add)

lemma sound_act: "sound buf (act r)"
proof (rule soundI)
  fix s assume i: "inv buf s"
  from add_ok [OF i order_refl, of r] obtain s' where
    "add r (position s) s = Some s'" "inv buf s'" "ext s s'"
    by blast
  then show "\<exists>b s'. act r s = Some (b, s') \<and> inv buf s' \<and> ext s s'"
    by (auto simp: act_def)
qed

text \<open>A loop whose body is sound and consuming ends, with success.\<close>

lemma star_ok:
  assumes "sound buf p" "consuming buf p" "inv buf s"
  shows "\<exists>s'. star p s = Some (True, s') \<and> inv buf s' \<and> ext s s'"
  using assms(3)
proof (induction "length buf - position s" arbitrary: s rule: less_induct)
  case less
  from assms(1) less.prems obtain b s1 where p: "p s = Some (b, s1)" "inv buf s1" "ext s s1"
    by (rule soundD)
  show ?case
  proof (cases b)
    case True
    with assms(2) less.prems p(1) have "position s < position s1"
      by (auto dest: consumingD)
    moreover from p(2) have "position s1 < length buf" by (simp add: inv_def)
    ultimately have "length buf - position s1 < length buf - position s" by simp
    from less.hyps [OF this p(2)] obtain s2 where
      "star p s1 = Some (True, s2)" "inv buf s2" "ext s1 s2"
      by blast
    with p True show ?thesis
      by (subst star.simps) (auto intro: ext_trans)
  next
    case False
    with p restore_ok [OF less.prems p(2,3)] show ?thesis
      by (subst star.simps) auto
  qed
qed

lemma sound_star: "sound buf p \<Longrightarrow> consuming buf p \<Longrightarrow> sound buf (star p)"
  using star_ok by (intro soundI) blast

lemma sound_lits: "sound buf (lits buf cs)"
proof (rule soundI)
  fix s assume "inv buf s"
  then show "\<exists>b s'. lits buf cs s = Some (b, s') \<and> inv buf s' \<and> ext s s'"
  proof (induction cs arbitrary: s)
    case Nil
    then show ?case by (auto simp: ext_refl)
  next
    case (Cons c cs)
    from sound_lit [OF rune_below_endSymbol] Cons.prems obtain b s1 where
      l: "lit buf (rune c) s = Some (b, s1)" "inv buf s1" "ext s s1"
      by (rule soundD)
    show ?case
    proof (cases b)
      case True
      from Cons.IH [OF l(2)] obtain b2 s2 where
        "lits buf cs s1 = Some (b2, s2)" "inv buf s2" "ext s1 s2"
        by blast
      with l True show ?thesis by (auto intro: ext_trans)
    next
      case False
      with l show ?thesis by auto
    qed
  qed
qed

lemma lits_first:
  "lits buf (c # cs) s = Some (True, s') \<Longrightarrow>
     \<exists>s1. lit buf (rune c) s = Some (True, s1) \<and> lits buf cs s1 = Some (True, s')"
  by (auto split: option.splits bool.splits)

lemma consuming_lits: "consuming buf (lits buf (c # cs))"
  unfolding consuming_def
proof (intro allI impI)
  fix s s' assume i: "inv buf s" and r: "lits buf (c # cs) s = Some (True, s')"
  from lits_first [OF r] obtain s1 where
    l: "lit buf (rune c) s = Some (True, s1)" and ls: "lits buf cs s1 = Some (True, s')"
    by blast
  from sound_res [OF sound_lit [OF rune_below_endSymbol] i l] have i1: "inv buf s1"
    by simp
  from sound_res [OF sound_lits i1 ls] have "ext s1 s'" by simp
  moreover from consuming_lit i l have "position s < position s1" by (rule consumingD)
  ultimately show "position s < position s'" by (simp add: ext_def)
qed


subsection \<open>The rules of the grammar\<close>

lemma rune_less_endSymbol: "rune c < endSymbol"
proof -
  have "(of_char c :: int) < 256"
    by (metis of_char_mod_256 pos_mod_bound zero_less_numeral)
  then show ?thesis by (simp add: rune_def endSymbol_def)
qed

lemma sound_if: "sound buf p \<Longrightarrow> sound buf q \<Longrightarrow> sound buf (if b then p else q)"
  by simp

lemma consuming_if: "consuming buf p \<Longrightarrow> consuming buf q \<Longrightarrow> consuming buf (if b then p else q)"
  by simp

lemmas sound_intros =
  sound_lit sound_range sound_matchDot sound_switch sound_if sound_seq sound_alt sound_opt
  sound_notp sound_rule_fn sound_tok sound_act sound_lits sound_star
  rune_below_endSymbol rune_less_endSymbol consuming_range

lemma sound_Whitespace: "sound buf (Whitespace buf)"
  unfolding Whitespace_def by (intro sound_intros)

lemma consuming_Whitespace: "consuming buf (Whitespace buf)"
  unfolding Whitespace_def
  by (intro consuming_rule_fn consuming_tok consuming_alt consuming_lit sound_intros)

lemma sound_EndOfLine: "sound buf (EndOfLine buf)"
  unfolding EndOfLine_def by (intro sound_intros)

lemma consuming_EndOfLine: "consuming buf (EndOfLine buf)"
  unfolding EndOfLine_def
  by (intro consuming_rule_fn consuming_tok consuming_alt consuming_lit consuming_lits sound_intros)

lemma sound_Space: "sound buf (Space buf)"
  unfolding Space_def by (intro sound_intros sound_Whitespace sound_EndOfLine)

lemma consuming_Space: "consuming buf (Space buf)"
  unfolding Space_def
  by (intro consuming_tok consuming_alt consuming_Whitespace consuming_EndOfLine sound_Whitespace)

lemma sound_Spacing: "sound buf (Spacing buf)"
  unfolding Spacing_def by (intro sound_intros sound_Space consuming_Space)

lemma sound_WhiteSpacing: "sound buf (WhiteSpacing buf)"
  unfolding WhiteSpacing_def by (intro sound_intros sound_Whitespace consuming_Whitespace)

lemma sound_MustWhiteSpacing: "sound buf (MustWhiteSpacing buf)"
  unfolding MustWhiteSpacing_def by (intro sound_intros sound_Whitespace consuming_Whitespace)

lemma sound_Equal: "sound buf (Equal buf)"
  unfolding Equal_def seqs.simps by (intro sound_intros sound_Spacing)

lemma sound_Identifier_char: "sound buf (Identifier_char buf)"
  unfolding Identifier_char_def by (intro sound_intros)

lemma consuming_Identifier_char: "consuming buf (Identifier_char buf)"
  unfolding Identifier_char_def
  by (intro consuming_switch consuming_if consuming_lit consuming_range)

lemma sound_Identifier: "sound buf (Identifier buf)"
  unfolding Identifier_def by (intro sound_intros sound_Identifier_char consuming_Identifier_char)

lemma consuming_Identifier: "consuming buf (Identifier buf)"
  unfolding Identifier_def
  by (intro consuming_rule_fn consuming_tok consuming_seq1 sound_intros
        sound_Identifier_char consuming_Identifier_char)

lemma sound_Action: "sound buf (Action buf)"
  unfolding Action_def by (intro sound_intros)

lemma consuming_Action: "consuming buf (Action buf)"
  unfolding Action_def
  by (intro consuming_tok consuming_alt consuming_switch consuming_if consuming_lits sound_intros)

lemma sound_Entity: "sound buf (Entity buf)"
  unfolding Entity_def by (intro sound_intros)

lemma sound_digits: "sound buf (digits buf)"
  unfolding digits_def by (intro sound_intros)

lemma sound_CidrValue: "sound buf (CidrValue buf)"
  unfolding CidrValue_def seqs.simps by (intro sound_intros sound_digits)

lemma sound_IpValue: "sound buf (IpValue buf)"
  unfolding IpValue_def seqs.simps by (intro sound_intros sound_digits)

lemma sound_IntRangeValue: "sound buf (IntRangeValue buf)"
  unfolding IntRangeValue_def seqs.simps by (intro sound_intros sound_digits)

lemma sound_IntValue: "sound buf (IntValue buf)"
  unfolding IntValue_def by (intro sound_intros sound_digits)

lemma sound_RefValue: "sound buf (RefValue buf)"
  unfolding RefValue_def by (intro sound_intros sound_Identifier)

lemma sound_AliasValue: "sound buf (AliasValue buf)"
  unfolding AliasValue_def by (intro sound_intros sound_Identifier)

lemma sound_HoleValue: "sound buf (HoleValue buf)"
  unfolding HoleValue_def seqs.simps by (intro sound_intros sound_Identifier sound_WhiteSpacing)

lemma sound_StringValue_char: "sound buf (StringValue_char buf)"
  unfolding StringValue_char_def by (intro sound_intros)

lemma consuming_StringValue_char: "consuming buf (StringValue_char buf)"
  unfolding StringValue_char_def
  by (intro consuming_switch consuming_if consuming_lit consuming_range)

lemma sound_StringValue: "sound buf (StringValue buf)"
  unfolding StringValue_def
  by (intro sound_intros sound_StringValue_char consuming_StringValue_char)

lemma sound_Value: "sound buf (Value buf)"
  unfolding Value_def
  by (intro sound_intros sound_CidrValue sound_IpValue sound_IntRangeValue sound_IntValue
        sound_RefValue sound_AliasValue sound_HoleValue sound_StringValue)

lemma sound_Param: "sound buf (Param buf)"
  unfolding Param_def seqs.simps
  by (intro sound_intros sound_Identifier sound_Equal sound_Value sound_WhiteSpacing)

lemma consuming_Param: "consuming buf (Param buf)"
  unfolding Param_def seqs.simps
  by (intro consuming_tok consuming_seq1 consuming_Identifier sound_intros
        sound_Identifier sound_Equal sound_Value sound_WhiteSpacing)

lemma sound_Params: "sound buf (Params buf)"
  unfolding Params_def by (intro sound_intros sound_Param consuming_Param)

lemma sound_Expr: "sound buf (Expr buf)"
  unfolding Expr_def seqs.simps
  by (intro sound_intros sound_Action sound_MustWhiteSpacing sound_Entity sound_Params)

lemma consuming_Expr: "consuming buf (Expr buf)"
  unfolding Expr_def seqs.simps
  by (intro consuming_rule_fn consuming_tok consuming_seq1 consuming_Action sound_intros
        sound_Action sound_MustWhiteSpacing sound_Entity sound_Params)

lemma sound_Declaration: "sound buf (Declaration buf)"
  unfolding Declaration_def seqs.simps
  by (intro sound_intros sound_Identifier sound_Equal sound_Expr)

lemma consuming_Declaration: "consuming buf (Declaration buf)"
  unfolding Declaration_def seqs.simps
  by (intro consuming_tok consuming_seq1 consuming_Identifier sound_intros
        sound_Identifier sound_Equal sound_Expr)

lemma sound_until_EndOfLine: "sound buf (seq (notp (EndOfLine buf)) (matchDot buf))"
  by (intro sound_intros sound_EndOfLine)

lemma consuming_until_EndOfLine: "consuming buf (seq (notp (EndOfLine buf)) (matchDot buf))"
  by (intro consuming_seq2 consuming_matchDot sound_intros sound_EndOfLine)

lemma sound_Comment: "sound buf (Comment buf)"
  unfolding Comment_def seqs.simps
  by (intro sound_intros sound_until_EndOfLine consuming_until_EndOfLine)

lemma consuming_Comment: "consuming buf (Comment buf)"
  unfolding Comment_def seqs.simps
  by (intro consuming_tok consuming_alt consuming_seq1 consuming_lit sound_intros
        sound_until_EndOfLine consuming_until_EndOfLine)

lemma sound_Statement_choice:
  "sound buf (alt (Expr buf) (alt (Declaration buf) (Comment buf)))"
  by (intro sound_intros sound_Expr sound_Declaration sound_Comment)

lemma consuming_Statement_choice:
  "consuming buf (alt (Expr buf) (alt (Declaration buf) (Comment buf)))"
  by (intro consuming_alt consuming_Expr consuming_Declaration consuming_Comment
        sound_Expr sound_Declaration)

lemma sound_Statement: "sound buf (Statement buf)"
  unfolding Statement_def seqs.simps
  by (intro sound_intros sound_Spacing sound_Statement_choice sound_EndOfLine consuming_EndOfLine)

lemma consuming_Statement: "consuming buf (Statement buf)"
  unfolding Statement_def seqs.simps
  by (intro consuming_tok consuming_seq2 consuming_seq1 [OF consuming_Statement_choice]
        sound_intros sound_Spacing sound_Statement_choice sound_EndOfLine consuming_EndOfLine)

lemma sound_EndOfFile: "sound buf (EndOfFile buf)"
  unfolding EndOfFile_def by (intro sound_intros)

lemma sound_Script: "sound buf (Script buf)"
  unfolding Script_def seqs.simps
  by (intro sound_intros sound_Spacing sound_Statement consuming_Statement sound_EndOfFile)

lemma consuming_Script: "consuming buf (Script buf)"
  unfolding Script_def seqs.simps
  by (intro consuming_rule_fn consuming_tok consuming_seq2 consuming_seq1 [OF consuming_Statement]
        sound_intros sound_Spacing sound_Statement consuming_Statement sound_EndOfFile)


subsection \<open>The parser object\<close>

lemma buffer_new_Peg:
  "buffer (new_Peg k text) = (if text = [] \<or> last text \<noteq> endSymbol then text @ [endSymbol] else text)"
  by (simp add: new_Peg_def Init_def reset_def Let_def)

lemma vars_new_Peg:
  "vars (new_Peg k text) =
     \<lparr>position = 0, tokenIndex = 0, store = \<lparr>tree = [], unused = 32767, len_tree = 32767\<rparr>, maxTok = token_zero\<rparr>"
  by (simp add: new_Peg_def Init_def reset_def Let_def)

lemma inv_new_Peg: "inv (buffer (new_Peg k text)) (vars (new_Peg k text))"
  unfolding vars_new_Peg buffer_new_Peg
  by (auto simp: inv_def cap_tree_def token_zero_def)

lemma visible_tree: "inv buf s \<Longrightarrow> visible s = take (tokenIndex s) (tree (store s))"
  by (auto simp: visible_def cells_def inv_def cap_tree_def Let_def)

lemma ext_visible:
  assumes "inv buf s" "inv buf s1" "ext s s1"
  shows "visible (restore s s1) = visible s"
proof -
  from restore_ok [OF assms] have "inv buf (restore s s1)" by simp
  then have "visible (restore s s1) = take (tokenIndex s) (tree (store s1))"
    by (simp add: visible_tree)
  also have "\<dots> = take (tokenIndex s) (tree (store s))"
    using assms(3) by (simp add: ext_def)
  finally show ?thesis using assms(1) by (simp add: visible_tree)
qed



text \<open>\<^verbatim>\<open>Parse\<close> on a new parser returns: the matcher neither panics nor runs for ever,
  and the length given to \<^verbatim>\<open>Trim\<close> is within the capacity of the store.\<close>

lemma Parse_returns: "\<exists>e p. Parse (new_Peg k text) = Some (e, p)"
proof -
  let ?p = "new_Peg k text"
  from sound_Script inv_new_Peg obtain b s where
    s: "Script (buffer ?p) (vars ?p) = Some (b, s)" "inv (buffer ?p) s"
    by (rule soundD)
  from s(2) have "int (tokenIndex s) \<le> cap_tree (store s)" by (simp add: inv_def cap_tree_def)
  with s(1) show ?thesis by (cases b) (simp_all add: Parse_def Trim_def Let_def)
qed


section \<open>Backtracking\<close>




section \<open>Tree reconstruction\<close>

lemma AST_loop_append: "AST_loop (ts @ us) st = AST_loop us (AST_loop ts st)"
  by (induction ts arbitrary: st) (auto split: prod.splits)

lemma AST_loop_zero_width:
  "\<forall>t \<in> set ts. tbegin t = tend t \<Longrightarrow> AST_loop ts st = st"
  by (induction ts arbitrary: st) auto

lemma AST_pop_eq:
  "AST_pop t up st =
     (rev (takeWhile (\<lambda>n. tbegin t \<le> tbegin (token n) \<and> tend (token n) \<le> tend t) st) @ up,
      dropWhile (\<lambda>n. tbegin t \<le> tbegin (token n) \<and> tend (token n) \<le> tend t) st)"
  by (induction st arbitrary: up) auto

lemma AST_pop_tokens:
  "AST_pop t up st = (up', st') \<Longrightarrow> set st' \<subseteq> set st"
  by (auto simp: AST_pop_eq dest: set_dropWhileD)

lemma AST_loop_tokens:
  "token ` set (AST_loop ts st) \<subseteq> set ts \<union> token ` set st"
proof (induction ts arbitrary: st)
  case Nil
  then show ?case by simp
next
  case (Cons t ts)
  show ?case
  proof (cases "tbegin t = tend t")
    case True
    with Cons.IH [of st] show ?thesis by auto
  next
    case False
    obtain up st' where p: "AST_pop t [] st = (up, st')" by (cases "AST_pop t [] st")
    from AST_pop_tokens [OF p] Cons.IH [of "Node32 t up # st'"] False p
    show ?thesis by auto
  qed
qed

text \<open>A last record that is not empty, begins at 0 and ends at or after every other
  record takes the whole stack as its children.\<close>

lemma AST_loop_root:
  assumes "\<forall>x \<in> set ts. tend x \<le> tend t" "tbegin t = 0" "tbegin t \<noteq> tend t"
  shows "\<exists>cs. AST_loop (ts @ [t]) [] = [Node32 t cs]"
proof -
  let ?st = "AST_loop ts []"
  let ?P = "\<lambda>n. tbegin t \<le> tbegin (token n) \<and> tend (token n) \<le> tend t"
  have "\<forall>n \<in> set ?st. ?P n"
    using AST_loop_tokens [of ts "[]"] assms(1,2) by auto
  then have "takeWhile ?P ?st = ?st" "dropWhile ?P ?st = []"
    by simp_all
  then have "AST_pop t [] ?st = (rev ?st, [])"
    by (simp add: AST_pop_eq)
  with assms(3) show ?thesis
    by (simp add: AST_loop_append)
qed

text \<open>The visible records of a successful \<open>Script\<close>: the last one is the \<open>Script\<close>
  record, from the \<^verbatim>\<open>position\<close> on entry to the final one, it is not empty, and no
  record ends after it.\<close>

lemma Script_records:
  assumes "inv buf s" "Script buf s = Some (True, s')"
  shows "\<exists>ts. visible s' = ts @ [\<lparr>pegRule = ruleScript, tbegin = position s, tend = position s'\<rparr>] \<and>
           (\<forall>x \<in> set ts. tend x \<le> position s') \<and> position s < position s' \<and> inv buf s'"
proof -
  let ?body = "seq (Spacing buf) (seq (Statement buf) (seq (star (Statement buf)) (EndOfFile buf)))"
  have sb: "sound buf ?body"
    by (intro sound_intros sound_Spacing sound_Statement consuming_Statement sound_EndOfFile)
  have cb: "consuming buf ?body"
    by (intro consuming_seq2 consuming_seq1 [OF consuming_Statement]
          sound_intros sound_Spacing sound_Statement consuming_Statement sound_EndOfFile)
  from assms(2) obtain s1 where b: "?body s = Some (True, s1)"
      and a: "add ruleScript (position s) s1 = Some s'"
    by (auto simp: Script_def rule_fn_True tok_True)
  from sound_res [OF sb assms(1) b] have i1: "inv buf s1" and e: "ext s s1" by simp_all
  from consumingD [OF cb assms(1) b] have lt: "position s < position s1" .
  from e have "position s \<le> position s1" by (simp add: ext_def)
  from add_ok [OF i1 this, of ruleScript] a have
    i': "inv buf s'" and p': "position s' = position s1" and t': "tokenIndex s' = Suc (tokenIndex s1)"
    and v: "take (Suc (tokenIndex s1)) (tree (store s')) =
        take (tokenIndex s1) (tree (store s1)) @ [\<lparr>pegRule = ruleScript, tbegin = position s, tend = position s1\<rparr>]"
    by auto
  have "visible s' = take (tokenIndex s1) (tree (store s1)) @
      [\<lparr>pegRule = ruleScript, tbegin = position s, tend = position s'\<rparr>]"
    using v t' p' by (simp add: visible_tree [OF i'])
  moreover have "\<forall>x \<in> set (take (tokenIndex s1) (tree (store s1))). tend x \<le> position s'"
    using i1 p' by (simp add: inv_def)
  ultimately show ?thesis using lt p' i' by auto
qed

lemma Parse_success:
  assumes "Parse (new_Peg k text) = Some (None, p)"
  shows "\<exists>s. Script (buffer (new_Peg k text)) (vars (new_Peg k text)) = Some (True, s) \<and>
           Tokens (tokens32 p) = visible s \<and> buffer p = buffer (new_Peg k text)"
proof -
  let ?p = "new_Peg k text"
  from sound_Script inv_new_Peg obtain b s where
    s: "Script (buffer ?p) (vars ?p) = Some (b, s)" "inv (buffer ?p) s"
    by (rule soundD)
  from s(2) have le: "tokenIndex s \<le> length (tree (store s))"
    and cap: "int (tokenIndex s) \<le> cap_tree (store s)"
    by (simp_all add: inv_def cap_tree_def)
  from assms s(1) have b: "b" by (cases b) (auto simp: Parse_def Let_def split: option.splits)
  from assms s(1) b cap have "tokens32 p = (store s)\<lparr>len_tree := int (tokenIndex s)\<rparr>"
      and "buffer p = buffer ?p"
    by (auto simp: Parse_def Let_def Trim_def)
  with s b le show ?thesis
    by (auto simp: Tokens_def cells_def visible_tree Let_def)
qed

text \<open>
  C7. \<^verbatim>\<open>AST\<close> skips a record with \<^verbatim>\<open>begin == end\<close>; for any other record it pops the
  nodes on top of the stack while their spans lie within the record and makes them
  the children of a new node, the node popped last first, so the children are in
  the order in which they were pushed; and for the records of a successful
  \<^verbatim>\<open>Parse\<close> the stack ends with exactly one node, the \<open>Script\<close> node, which is returned.
\<close>

theorem AST_reconstruction:
  "(tbegin t = tend t \<longrightarrow> AST_loop (t # ts) st = AST_loop ts st) \<and>
   (tbegin t \<noteq> tend t \<longrightarrow>
      AST_loop (t # ts) st =
        AST_loop ts
          (Node32 t (rev (takeWhile (\<lambda>n. tbegin t \<le> tbegin (token n) \<and> tend (token n) \<le> tend t) st))
           # dropWhile (\<lambda>n. tbegin t \<le> tbegin (token n) \<and> tend (token n) \<le> tend t) st)) \<and>
   (Parse (new_Peg k text) = Some (None, p) \<longrightarrow>
      (\<exists>root. AST_loop (Tokens (tokens32 p)) [] = [root] \<and> AST (tokens32 p) = Some root \<and>
         pegRule (token root) = ruleScript \<and> tbegin (token root) = 0))"
proof (intro conjI impI)
  assume "tbegin t = tend t"
  then show "AST_loop (t # ts) st = AST_loop ts st" by simp
next
  assume "tbegin t \<noteq> tend t"
  then show "AST_loop (t # ts) st =
      AST_loop ts
        (Node32 t (rev (takeWhile (\<lambda>n. tbegin t \<le> tbegin (token n) \<and> tend (token n) \<le> tend t) st))
         # dropWhile (\<lambda>n. tbegin t \<le> tbegin (token n) \<and> tend (token n) \<le> tend t) st)"
    by (simp add: AST_pop_eq)
next
  assume ok: "Parse (new_Peg k text) = Some (None, p)"
  let ?p = "new_Peg k text"
  from Parse_success [OF ok] obtain s where
    s: "Script (buffer ?p) (vars ?p) = Some (True, s)" "Tokens (tokens32 p) = visible s"
    by blast
  from Script_records [OF inv_new_Peg s(1)] obtain ts where
    ts: "visible s = ts @ [\<lparr>pegRule = ruleScript, tbegin = position (vars ?p), tend = position s\<rparr>]"
      "\<forall>x \<in> set ts. tend x \<le> position s" "position (vars ?p) < position s"
    by blast
  let ?t = "\<lparr>pegRule = ruleScript, tbegin = 0, tend = position s\<rparr>"
  have z: "position (vars ?p) = 0" by (simp add: vars_new_Peg)
  from ts z have "\<exists>cs. AST_loop (ts @ [?t]) [] = [Node32 ?t cs]"
    by (intro AST_loop_root) auto
  then obtain cs where "AST_loop (ts @ [?t]) [] = [Node32 ?t cs]" by blast
  with ts(1) z s(2) show "\<exists>root. AST_loop (Tokens (tokens32 p)) [] = [root] \<and>
      AST (tokens32 p) = Some root \<and> pegRule (token root) = ruleScript \<and> tbegin (token root) = 0"
    by (auto simp: AST_def)
qed

theorem AST_reconstruction_witness:
  "Parse (new_Peg 0 (runes ''create vpc'')) \<noteq> None \<and>
   fst (the (Parse (new_Peg 0 (runes ''create vpc'')))) = None \<and>
   (\<exists>root. AST (tokens32 (snd (the (Parse (new_Peg 0 (runes ''create vpc'')))))) = Some root \<and>
      pegRule (token root) = ruleScript \<and> tbegin (token root) = 0) \<and>
   AST_loop [\<lparr>pegRule = ruleSpacing, tbegin = 0, tend = 0\<rparr>,
             \<lparr>pegRule = ruleAction, tbegin = 0, tend = 6\<rparr>] [] =
     [Node32 \<lparr>pegRule = ruleAction, tbegin = 0, tend = 6\<rparr> []]"
proof -
  let ?r = "Parse (new_Peg 0 (runes ''create vpc''))"
  have e: "map_option fst ?r = Some None"
    by code_simp
  then obtain p where p: "?r = Some (None, p)"
    by (cases ?r) auto
  from AST_reconstruction [of token_zero "[]" "[]" 0 "runes ''create vpc''" p] p
  have "\<exists>root. AST (tokens32 p) = Some root \<and> pegRule (token root) = ruleScript \<and>
      tbegin (token root) = 0"
    by blast
  moreover have "AST_loop [\<lparr>pegRule = ruleSpacing, tbegin = 0, tend = 0\<rparr>,
      \<lparr>pegRule = ruleAction, tbegin = 0, tend = 6\<rparr>] [] =
      [Node32 \<lparr>pegRule = ruleAction, tbegin = 0, tend = 6\<rparr> []]"
    by simp
  ultimately show ?thesis using p by simp
qed

text \<open>
  C10. When the list of records is empty or every record has \<^verbatim>\<open>begin == end\<close>, the
  stack of \<^verbatim>\<open>AST\<close> stays empty and \<^verbatim>\<open>AST\<close> returns \<^verbatim>\<open>nil\<close>.
\<close>

theorem AST_nil:
  "\<forall>t \<in> set (Tokens ts). tbegin t = tend t \<Longrightarrow> AST ts = None"
  by (simp add: AST_def AST_loop_zero_width)

theorem AST_nil_witness:
  "list_all (\<lambda>t. tbegin t = tend t)
     (Tokens \<lparr>tree = [\<lparr>pegRule = ruleSpacing, tbegin = 3, tend = 3\<rparr>], unused = 2, len_tree = 3\<rparr>) \<and>
   AST \<lparr>tree = [\<lparr>pegRule = ruleSpacing, tbegin = 3, tend = 3\<rparr>], unused = 2, len_tree = 3\<rparr> = None \<and>
   AST \<lparr>tree = [], unused = 0, len_tree = 0\<rparr> = None"
proof -
  have h: "\<forall>t \<in> set (Tokens \<lparr>tree = [\<lparr>pegRule = ruleSpacing, tbegin = 3, tend = 3\<rparr>], unused = 2, len_tree = 3\<rparr>).
      tbegin t = tend t"
    by (auto simp: Tokens_def cells_def token_zero_def)
  have e: "\<forall>t \<in> set (Tokens \<lparr>tree = [], unused = 0, len_tree = 0\<rparr>). tbegin t = tend t"
    by (simp add: Tokens_def cells_def)
  from AST_nil [OF h] AST_nil [OF e] h show ?thesis
    by (simp add: list_all_iff)
qed


section \<open>The slot \<^verbatim>\<open>max\<close>\<close>

lemma failure_effect_rule_fn: "sound buf p \<Longrightarrow> failure_effect buf (rule_fn p)"
  unfolding failure_effect_def
proof (intro allI impI)
  fix s s' assume p: "sound buf p" and i: "inv buf s" and r: "rule_fn p s = Some (False, s')"
  from r obtain s1 where s1: "p s = Some (False, s1)" "s' = restore s s1"
    by (auto simp: rule_fn_False)
  from sound_res [OF p i s1(1)] have i1: "inv buf s1" and e: "ext s s1" by simp_all
  from e have "maxTok s1 = maxTok s \<or>
      tend (maxTok s) < tend (maxTok s1) \<and> tbegin (maxTok s1) < tend (maxTok s1)"
    by (simp add: ext_def)
  with i i1 e s1(2) show "position s' = position s \<and> tokenIndex s' = tokenIndex s \<and>
      visible s' = visible s \<and>
      (maxTok s' = maxTok s \<or>
       tend (maxTok s) < tend (maxTok s') \<and> tbegin (maxTok s') < tend (maxTok s'))"
    by (simp add: ext_visible)
qed

lemma maxTok_add:
  "add r b s = Some s' \<Longrightarrow>
     maxTok s' = (if b \<noteq> position s \<and> tend (maxTok s) < position s
                  then \<lparr>pegRule = r, tbegin = b, tend = position s\<rparr> else maxTok s)"
  by (auto simp: add_def Let_def split: option.splits)

text \<open>
  C3, as stated, fails. \<^verbatim>\<open>max\<close> is written by \<^verbatim>\<open>add\<close> only, and \<^verbatim>\<open>add\<close> runs when a
  part of the grammar has matched. On the text \<^verbatim>\<open>creatx\<close> the function \<open>Expr\<close> returns
  \<^verbatim>\<open>false\<close> after the literal tests of \<^verbatim>\<open>create\<close> have passed five runes (end offset 5,
  beyond \<^verbatim>\<open>max.end\<close> = 0), and \<^verbatim>\<open>max\<close> is still the zero record. On a text of one
  space the function \<open>Whitespace\<close> returns \<^verbatim>\<open>true\<close> and \<^verbatim>\<open>max\<close> becomes its record. And
  on the text of a space and \<^verbatim>\<open>x\<close> the function \<open>Equal\<close> returns \<^verbatim>\<open>false\<close> and leaves
  three records in the store, written by the parts that had matched.
\<close>

theorem furthest_failure_counterexample:
  "Expr (buffer (new_Peg 0 (runes ''creatx''))) (vars (new_Peg 0 (runes ''creatx''))) =
     Some (False, vars (new_Peg 0 (runes ''creatx''))) \<and>
   lits (buffer (new_Peg 0 (runes ''creatx''))) ''create'' (vars (new_Peg 0 (runes ''creatx''))) =
     Some (False, (vars (new_Peg 0 (runes ''creatx'')))\<lparr>position := 5\<rparr>) \<and>
   maxTok (vars (new_Peg 0 (runes ''creatx''))) = \<lparr>pegRule = ruleUnknown, tbegin = 0, tend = 0\<rparr> \<and>
   map_option fst (Whitespace (buffer (new_Peg 0 (runes '' ''))) (vars (new_Peg 0 (runes '' '')))) =
     Some True \<and>
   map_option (maxTok \<circ> snd)
       (Whitespace (buffer (new_Peg 0 (runes '' ''))) (vars (new_Peg 0 (runes '' '')))) =
     Some \<lparr>pegRule = ruleWhitespace, tbegin = 0, tend = 1\<rparr> \<and>
   map_option fst (Equal (buffer (new_Peg 0 (runes '' x''))) (vars (new_Peg 0 (runes '' x'')))) =
     Some False \<and>
   map_option (tree \<circ> store \<circ> snd)
       (Equal (buffer (new_Peg 0 (runes '' x''))) (vars (new_Peg 0 (runes '' x'')))) =
     Some [\<lparr>pegRule = ruleWhitespace, tbegin = 0, tend = 1\<rparr>,
           \<lparr>pegRule = ruleSpace, tbegin = 0, tend = 1\<rparr>,
           \<lparr>pegRule = ruleSpacing, tbegin = 0, tend = 1\<rparr>] \<and>
   tree (store (vars (new_Peg 0 (runes '' x'')))) = []"
  by code_simp

text \<open>
  C3, amended. \<^verbatim>\<open>max\<close> is written by \<^verbatim>\<open>add\<close> only: \<^verbatim>\<open>add\<close> replaces it by the record
  it has just written exactly when that record is not empty (\<^verbatim>\<open>begin != position\<close>)
  and \<^verbatim>\<open>position\<close> is beyond \<^verbatim>\<open>max.end\<close>. The tests of a rune and putting the saved
  pair back leave \<^verbatim>\<open>max\<close> and the store alone. When a rule function returns \<^verbatim>\<open>false\<close>,
  \<^verbatim>\<open>position\<close>, \<^verbatim>\<open>tokenIndex\<close> and the visible records are as on entry, and \<^verbatim>\<open>max\<close> is as
  on entry or a record, not empty and ending further, added during the attempt.
\<close>

theorem max_written_by_add:
  "(add r b s = Some s' \<longrightarrow>
      maxTok s' = (if b \<noteq> position s \<and> tend (maxTok s) < position s
                   then \<lparr>pegRule = r, tbegin = b, tend = position s\<rparr> else maxTok s)) \<and>
   maxTok (restore s0 s) = maxTok s \<and> store (restore s0 s) = store s \<and>
   (lit buf c s = Some (ok, s') \<or> range buf lo hi s = Some (ok, s') \<or>
    matchDot buf s = Some (ok, s') \<longrightarrow>
      maxTok s' = maxTok s \<and> store s' = store s \<and> tokenIndex s' = tokenIndex s) \<and>
   failure_effect buf (Script buf) \<and> failure_effect buf (Expr buf) \<and>
   failure_effect buf (Identifier buf) \<and> failure_effect buf (MustWhiteSpacing buf) \<and>
   failure_effect buf (Equal buf) \<and> failure_effect buf (Whitespace buf) \<and>
   failure_effect buf (EndOfLine buf)"
proof -
  have prim: "maxTok s' = maxTok s \<and> store s' = store s \<and> tokenIndex s' = tokenIndex s"
    if "lit buf c s = Some (ok, s') \<or> range buf lo hi s = Some (ok, s') \<or>
        matchDot buf s = Some (ok, s')"
    using that
    by (auto simp: lit_def range_def matchDot_def split: option.splits if_splits)
  have r1: "failure_effect buf (Script buf)"
    unfolding Script_def seqs.simps
    by (intro failure_effect_rule_fn sound_intros sound_Spacing sound_Statement
          consuming_Statement sound_EndOfFile)
  have r2: "failure_effect buf (Expr buf)"
    unfolding Expr_def seqs.simps
    by (intro failure_effect_rule_fn sound_intros sound_Action sound_MustWhiteSpacing
          sound_Entity sound_Params)
  have r3: "failure_effect buf (Identifier buf)"
    unfolding Identifier_def
    by (intro failure_effect_rule_fn sound_intros sound_Identifier_char consuming_Identifier_char)
  have r4: "failure_effect buf (MustWhiteSpacing buf)"
    unfolding MustWhiteSpacing_def
    by (intro failure_effect_rule_fn sound_intros sound_Whitespace consuming_Whitespace)
  have r5: "failure_effect buf (Equal buf)"
    unfolding Equal_def seqs.simps
    by (intro failure_effect_rule_fn sound_intros sound_Spacing)
  have r6: "failure_effect buf (Whitespace buf)"
    unfolding Whitespace_def
    by (intro failure_effect_rule_fn sound_intros)
  have r7: "failure_effect buf (EndOfLine buf)"
    unfolding EndOfLine_def
    by (intro failure_effect_rule_fn sound_intros)
  from prim r1 r2 r3 r4 r5 r6 r7 show ?thesis
    by (simp add: maxTok_add)
qed

theorem max_written_by_add_witness:
  "inv (buffer (new_Peg 0 (runes '' x''))) (vars (new_Peg 0 (runes '' x''))) \<and>
   map_option fst (Equal (buffer (new_Peg 0 (runes '' x''))) (vars (new_Peg 0 (runes '' x'')))) =
     Some False \<and>
   map_option (maxTok \<circ> snd)
       (Equal (buffer (new_Peg 0 (runes '' x''))) (vars (new_Peg 0 (runes '' x'')))) =
     Some \<lparr>pegRule = ruleWhitespace, tbegin = 0, tend = 1\<rparr> \<and>
   map_option (position \<circ> snd)
       (Equal (buffer (new_Peg 0 (runes '' x''))) (vars (new_Peg 0 (runes '' x'')))) = Some 0 \<and>
   map_option maxTok (add ruleSpace 0 ((vars (new_Peg 0 (runes '' x'')))\<lparr>position := 1\<rparr>)) =
     Some \<lparr>pegRule = ruleSpace, tbegin = 0, tend = 1\<rparr>"
proof -
  let ?p = "new_Peg 0 (runes '' x'')"
  have i: "inv (buffer ?p) (vars ?p)"
    by (rule inv_new_Peg)
  have f: "map_option fst (Equal (buffer ?p) (vars ?p)) = Some False"
    by code_simp
  have m: "map_option (maxTok \<circ> snd) (Equal (buffer ?p) (vars ?p)) =
      Some \<lparr>pegRule = ruleWhitespace, tbegin = 0, tend = 1\<rparr>"
    by code_simp
  from f obtain s' where s': "Equal (buffer ?p) (vars ?p) = Some (False, s')"
    by (cases "Equal (buffer ?p) (vars ?p)") auto
  have "failure_effect (buffer ?p) (Equal (buffer ?p))"
    using max_written_by_add [of _ _ _ _ _ "buffer ?p"] by blast
  with i s' have "position s' = position (vars ?p)"
    unfolding failure_effect_def by blast
  then have p: "map_option (position \<circ> snd) (Equal (buffer ?p) (vars ?p)) = Some 0"
    using s' by (simp add: vars_new_Peg)
  have "\<exists>s1. add ruleSpace 0 ((vars ?p)\<lparr>position := 1\<rparr>) = Some s1"
    by (auto simp: add_def vars_new_Peg Add_def Let_def)
  then obtain s1 where s1: "add ruleSpace 0 ((vars ?p)\<lparr>position := 1\<rparr>) = Some s1"
    by blast
  from max_written_by_add [of ruleSpace 0 "(vars ?p)\<lparr>position := 1\<rparr>" s1] s1
  have "maxTok s1 = \<lparr>pegRule = ruleSpace, tbegin = 0, tend = 1\<rparr>"
    by (simp add: vars_new_Peg token_zero_def)
  with i f m p s1 show ?thesis by simp
qed


section \<open>Calls of \<^verbatim>\<open>LineDone\<close>\<close>

lemma acctI:
  assumes "\<And>s s'. inv buf s \<Longrightarrow> m s = Some (True, s') \<Longrightarrow>
     d3 s' = d3 s + a \<and> d13 buf s' = d13 buf s + b \<and> dhash buf s' = dhash buf s"
  shows "acct buf m a b"
  using assms by (simp add: acct_def)

lemma acctD:
  "acct buf m a b \<Longrightarrow> inv buf s \<Longrightarrow> m s = Some (True, s') \<Longrightarrow>
     d3 s' = d3 s + a \<and> d13 buf s' = d13 buf s + b \<and> dhash buf s' = dhash buf s"
  by (simp add: acct_def)

lemma same_visible:
  "tokenIndex s' = tokenIndex s \<Longrightarrow> store s' = store s \<Longrightarrow>
     d3 s' = d3 s \<and> d13 buf s' = d13 buf s \<and> dhash buf s' = dhash buf s"
  by (simp add: d3_def d13_def dhash_def visible_def)

lemma restore_balance:
  assumes "inv buf s" "inv buf s1" "ext s s1"
  shows "d3 (restore s s1) = d3 s \<and> d13 buf (restore s s1) = d13 buf s \<and>
         dhash buf (restore s s1) = dhash buf s"
  using ext_visible [OF assms] by (simp add: d3_def d13_def dhash_def)

lemma acct_frame:
  assumes "\<And>s s'. m s = Some (True, s') \<Longrightarrow> tokenIndex s' = tokenIndex s \<and> store s' = store s"
  shows "acct buf m 0 0"
proof (rule acctI)
  fix s s' assume "m s = Some (True, s')"
  from assms [OF this] same_visible [of s' s buf]
  show "d3 s' = d3 s + 0 \<and> d13 buf s' = d13 buf s + 0 \<and> dhash buf s' = dhash buf s"
    by simp
qed

lemma acct_lit: "acct buf (lit buf c) 0 0"
  by (rule acct_frame) (auto simp: lit_def split: option.splits if_splits)

lemma acct_range: "acct buf (range buf lo hi) 0 0"
  by (rule acct_frame) (auto simp: range_def split: option.splits if_splits)

lemma acct_matchDot: "acct buf (matchDot buf) 0 0"
  by (rule acct_frame) (auto simp: matchDot_def split: option.splits if_splits)

lemma lits_frame:
  "lits buf cs s = Some (b, s') \<Longrightarrow> tokenIndex s' = tokenIndex s \<and> store s' = store s"
proof (induction cs arbitrary: s)
  case Nil
  then show ?case by simp
next
  case (Cons c cs)
  then show ?case
    by (auto simp: lit_def split: option.splits if_splits bool.splits)
qed

lemma acct_lits: "acct buf (lits buf cs) 0 0"
  by (rule acct_frame) (auto dest: lits_frame)

lemma acct_switch: "(\<And>c. acct buf (f c) a b) \<Longrightarrow> acct buf (switch buf f) a b"
  by (auto simp: acct_def switch_def split: option.splits)

lemma acct_if: "acct buf p a b \<Longrightarrow> acct buf q a b \<Longrightarrow> acct buf (if c then p else q) a b"
  by simp

lemma acct_seq:
  assumes "sound buf p" "acct buf p 0 0" "acct buf q a b"
  shows "acct buf (seq p q) a b"
proof (rule acctI)
  fix s s' assume i: "inv buf s" and r: "seq p q s = Some (True, s')"
  from r obtain s1 where p: "p s = Some (True, s1)" and q: "q s1 = Some (True, s')"
    by (auto simp: seq_True)
  from sound_res [OF assms(1) i p] have i1: "inv buf s1" by simp
  from acctD [OF assms(2) i p] acctD [OF assms(3) i1 q]
  show "d3 s' = d3 s + a \<and> d13 buf s' = d13 buf s + b \<and> dhash buf s' = dhash buf s"
    by simp
qed

lemma acct_alt:
  assumes "sound buf p" "acct buf p a b" "acct buf q a b"
  shows "acct buf (alt p q) a b"
proof (rule acctI)
  fix s s' assume i: "inv buf s" and r: "alt p q s = Some (True, s')"
  from r consider "p s = Some (True, s')"
    | s1 where "p s = Some (False, s1)" "q (restore s s1) = Some (True, s')"
    by (auto simp: alt_True)
  then show "d3 s' = d3 s + a \<and> d13 buf s' = d13 buf s + b \<and> dhash buf s' = dhash buf s"
  proof cases
    case 1
    with assms(2) i show ?thesis by (rule acctD)
  next
    case 2
    from sound_res [OF assms(1) i 2(1)] have s1: "inv buf s1" "ext s s1" by simp_all
    from restore_ok [OF i s1] have "inv buf (restore s s1)" by simp
    from acctD [OF assms(3) this 2(2)] restore_balance [OF i s1] show ?thesis by simp
  qed
qed

lemma acct_opt:
  assumes "sound buf p" "acct buf p 0 0"
  shows "acct buf (opt p) 0 0"
proof (rule acctI)
  fix s s' assume i: "inv buf s" and r: "opt p s = Some (True, s')"
  from r consider "p s = Some (True, s')" | s1 where "p s = Some (False, s1)" "s' = restore s s1"
    by (auto simp: opt_def split: option.splits bool.splits)
  then show "d3 s' = d3 s + 0 \<and> d13 buf s' = d13 buf s + 0 \<and> dhash buf s' = dhash buf s"
  proof cases
    case 1
    with assms(2) i show ?thesis by (rule acctD)
  next
    case 2
    from sound_res [OF assms(1) i 2(1)] have s1: "inv buf s1" "ext s s1" by simp_all
    from restore_balance [OF i s1] 2(2) show ?thesis by simp
  qed
qed

lemma acct_notp:
  assumes "sound buf p"
  shows "acct buf (notp p) 0 0"
proof (rule acctI)
  fix s s' assume i: "inv buf s" and r: "notp p s = Some (True, s')"
  from r obtain s1 where p: "p s = Some (False, s1)" "s' = restore s s1"
    by (auto simp: notp_def split: option.splits bool.splits)
  from sound_res [OF assms i p(1)] have s1: "inv buf s1" "ext s s1" by simp_all
  from restore_balance [OF i s1] p(2)
  show "d3 s' = d3 s + 0 \<and> d13 buf s' = d13 buf s + 0 \<and> dhash buf s' = dhash buf s"
    by simp
qed

lemma acct_rule_fn: "acct buf p a b \<Longrightarrow> acct buf (rule_fn p) a b"
  by (simp add: acct_def rule_fn_True)

lemma acct_star:
  assumes "sound buf p" "consuming buf p" "acct buf p 0 0"
  shows "acct buf (star p) 0 0"
proof (rule acctI)
  fix s s' assume "inv buf s" "star p s = Some (True, s')"
  then have "d3 s' = d3 s \<and> d13 buf s' = d13 buf s \<and> dhash buf s' = dhash buf s"
  proof (induction "length buf - position s" arbitrary: s rule: less_induct)
    case less
    from assms(1) less.prems(1) obtain b s1 where p: "p s = Some (b, s1)" "inv buf s1" "ext s s1"
      by (rule soundD)
    show ?case
    proof (cases b)
      case True
      with assms(2) less.prems(1) p(1) have "position s < position s1"
        by (auto dest: consumingD)
      moreover from p(2) have "position s1 < length buf" by (simp add: inv_def)
      ultimately have m: "length buf - position s1 < length buf - position s" by simp
      from less.prems(2) p(1) True have "star p s1 = Some (True, s')"
        by (subst (asm) star.simps) simp
      from less.hyps [OF m p(2) this] acctD [OF assms(3) less.prems(1)] p(1) True
      show ?thesis by simp
    next
      case False
      with less.prems(2) p(1) have "s' = restore s s1"
        by (subst (asm) star.simps) simp
      with restore_balance [OF less.prems(1) p(2,3)] show ?thesis by simp
    qed
  qed
  then show "d3 s' = d3 s + 0 \<and> d13 buf s' = d13 buf s + 0 \<and> dhash buf s' = dhash buf s"
    by simp
qed

text \<open>The visible records after \<^verbatim>\<open>add\<close>.\<close>

lemma visible_add:
  assumes "inv buf s" "b \<le> position s" "add r b s = Some s'"
  shows "visible s' = visible s @ [\<lparr>pegRule = r, tbegin = b, tend = position s\<rparr>]"
proof -
  from add_ok [OF assms(1,2), of r] assms(3) have
    "inv buf s'" "tokenIndex s' = Suc (tokenIndex s)"
    "take (Suc (tokenIndex s)) (tree (store s')) =
       take (tokenIndex s) (tree (store s)) @ [\<lparr>pegRule = r, tbegin = b, tend = position s\<rparr>]"
    by auto
  with assms(1) show ?thesis by (simp add: visible_tree)
qed

lemma add_plain:
  assumes "inv buf s" "b \<le> position s" "add r b s = Some s'" "plain r"
  shows "d3 s' = d3 s \<and> d13 buf s' = d13 buf s \<and> dhash buf s' = dhash buf s"
  using visible_add [OF assms(1-3)] assms(4)
  by (simp add: d3_def d13_def dhash_def count_rule_def count_slash_def count_hash_def
        slash_comment_def hash_comment_def plain_def)

lemma acct_tok:
  assumes "sound buf p" "acct buf p a b" "plain r"
  shows "acct buf (tok r p) a b"
proof (rule acctI)
  fix s s' assume i: "inv buf s" and t: "tok r p s = Some (True, s')"
  from t obtain s1 where p: "p s = Some (True, s1)" and a: "add r (position s) s1 = Some s'"
    by (auto simp: tok_True)
  from sound_res [OF assms(1) i p] have i1: "inv buf s1" and "ext s s1" by simp_all
  then have "position s \<le> position s1" by (simp add: ext_def)
  from add_plain [OF i1 this a assms(3)] acctD [OF assms(2) i p]
  show "d3 s' = d3 s + a \<and> d13 buf s' = d13 buf s + b \<and> dhash buf s' = dhash buf s"
    by simp
qed

lemma acct_tok_Expr:
  assumes "sound buf p" "acct buf p 1 0"
  shows "acct buf (tok ruleExpr p) 0 0"
proof (rule acctI)
  fix s s' assume i: "inv buf s" and t: "tok ruleExpr p s = Some (True, s')"
  from t obtain s1 where p: "p s = Some (True, s1)" and a: "add ruleExpr (position s) s1 = Some s'"
    by (auto simp: tok_True)
  from sound_res [OF assms(1) i p] have i1: "inv buf s1" and "ext s s1" by simp_all
  then have "position s \<le> position s1" by (simp add: ext_def)
  from visible_add [OF i1 this a] acctD [OF assms(2) i p]
  show "d3 s' = d3 s + 0 \<and> d13 buf s' = d13 buf s + 0 \<and> dhash buf s' = dhash buf s"
    by (simp add: d3_def d13_def dhash_def count_rule_def count_slash_def count_hash_def
          slash_comment_def hash_comment_def)
qed

lemma acct_act: "plain r \<Longrightarrow> acct buf (act r) 0 0"
proof (rule acctI)
  fix s s' assume r: "plain r" and i: "inv buf s" and a: "act r s = Some (True, s')"
  from a have "add r (position s) s = Some s'"
    by (auto simp: act_def split: option.splits)
  from add_plain [OF i order_refl this r]
  show "d3 s' = d3 s + 0 \<and> d13 buf s' = d13 buf s + 0 \<and> dhash buf s' = dhash buf s"
    by simp
qed

lemma acct_Action3: "acct buf (act ruleAction3) 1 0"
proof (rule acctI)
  fix s s' assume i: "inv buf s" and a: "act ruleAction3 s = Some (True, s')"
  from a have "add ruleAction3 (position s) s = Some s'"
    by (auto simp: act_def split: option.splits)
  from visible_add [OF i order_refl this]
  show "d3 s' = d3 s + 1 \<and> d13 buf s' = d13 buf s + 0 \<and> dhash buf s' = dhash buf s"
    by (simp add: d3_def d13_def dhash_def count_rule_def count_slash_def count_hash_def
          slash_comment_def hash_comment_def)
qed

lemma acct_Action13: "acct buf (act ruleAction13) 0 1"
proof (rule acctI)
  fix s s' assume i: "inv buf s" and a: "act ruleAction13 s = Some (True, s')"
  from a have "add ruleAction13 (position s) s = Some s'"
    by (auto simp: act_def split: option.splits)
  from visible_add [OF i order_refl this]
  show "d3 s' = d3 s + 0 \<and> d13 buf s' = d13 buf s + 1 \<and> dhash buf s' = dhash buf s"
    by (simp add: d3_def d13_def dhash_def count_rule_def count_slash_def count_hash_def
          slash_comment_def hash_comment_def)
qed


subsection \<open>The balance of the grammar rules\<close>

lemmas grammar_sound =
  sound_Whitespace sound_EndOfLine sound_Space sound_Spacing sound_WhiteSpacing
  sound_MustWhiteSpacing sound_Equal sound_Identifier_char sound_Identifier sound_Action
  sound_Entity sound_digits sound_CidrValue sound_IpValue sound_IntRangeValue sound_IntValue
  sound_RefValue sound_AliasValue sound_HoleValue sound_StringValue_char sound_StringValue
  sound_Value sound_Param sound_Params sound_Expr sound_Declaration sound_until_EndOfLine
  sound_Comment sound_Statement sound_EndOfFile
  consuming_Whitespace consuming_EndOfLine consuming_Space consuming_Identifier_char
  consuming_StringValue_char consuming_Param consuming_Statement consuming_until_EndOfLine

lemmas acct_intros =
  acct_lit acct_range acct_matchDot acct_lits acct_switch acct_if acct_seq acct_alt acct_opt
  acct_notp acct_rule_fn acct_star acct_tok acct_act

lemma acct_Whitespace: "acct buf (Whitespace buf) 0 0"
  unfolding Whitespace_def
  by (intro acct_intros sound_intros) (simp_all add: plain_def)

lemma acct_EndOfLine: "acct buf (EndOfLine buf) 0 0"
  unfolding EndOfLine_def
  by (intro acct_intros sound_intros) (simp_all add: plain_def)

lemma acct_Space: "acct buf (Space buf) 0 0"
  unfolding Space_def
  by (intro acct_intros grammar_sound sound_intros acct_Whitespace acct_EndOfLine)
     (simp_all add: plain_def)

lemma acct_Spacing: "acct buf (Spacing buf) 0 0"
  unfolding Spacing_def
  by (intro acct_intros grammar_sound sound_intros acct_Space) (simp_all add: plain_def)

lemma acct_WhiteSpacing: "acct buf (WhiteSpacing buf) 0 0"
  unfolding WhiteSpacing_def
  by (intro acct_intros grammar_sound sound_intros acct_Whitespace) (simp_all add: plain_def)

lemma acct_MustWhiteSpacing: "acct buf (MustWhiteSpacing buf) 0 0"
  unfolding MustWhiteSpacing_def
  by (intro acct_intros grammar_sound sound_intros acct_Whitespace) (simp_all add: plain_def)

lemma acct_Equal: "acct buf (Equal buf) 0 0"
  unfolding Equal_def seqs.simps
  by (intro acct_intros grammar_sound sound_intros acct_Spacing) (simp_all add: plain_def)

lemma acct_Identifier_char: "acct buf (Identifier_char buf) 0 0"
  unfolding Identifier_char_def
  by (intro acct_intros)

lemma acct_Identifier: "acct buf (Identifier buf) 0 0"
  unfolding Identifier_def
  by (intro acct_intros grammar_sound sound_intros acct_Identifier_char)
     (simp_all add: plain_def)

lemma acct_Action: "acct buf (Action buf) 0 0"
  unfolding Action_def
  by (intro acct_intros sound_intros) (simp_all add: plain_def)

lemma acct_Entity: "acct buf (Entity buf) 0 0"
  unfolding Entity_def
  by (intro acct_intros sound_intros) (simp_all add: plain_def)

lemma acct_digits: "acct buf (digits buf) 0 0"
  unfolding digits_def
  by (intro acct_intros sound_intros)

lemma acct_CidrValue: "acct buf (CidrValue buf) 0 0"
  unfolding CidrValue_def seqs.simps
  by (intro acct_intros grammar_sound sound_intros acct_digits) (simp_all add: plain_def)

lemma acct_IpValue: "acct buf (IpValue buf) 0 0"
  unfolding IpValue_def seqs.simps
  by (intro acct_intros grammar_sound sound_intros acct_digits) (simp_all add: plain_def)

lemma acct_IntRangeValue: "acct buf (IntRangeValue buf) 0 0"
  unfolding IntRangeValue_def seqs.simps
  by (intro acct_intros grammar_sound sound_intros acct_digits) (simp_all add: plain_def)

lemma acct_IntValue: "acct buf (IntValue buf) 0 0"
  unfolding IntValue_def
  by (intro acct_intros grammar_sound sound_intros acct_digits) (simp_all add: plain_def)

lemma acct_RefValue: "acct buf (RefValue buf) 0 0"
  unfolding RefValue_def
  by (intro acct_intros grammar_sound sound_intros acct_Identifier) (simp_all add: plain_def)

lemma acct_AliasValue: "acct buf (AliasValue buf) 0 0"
  unfolding AliasValue_def
  by (intro acct_intros grammar_sound sound_intros acct_Identifier) (simp_all add: plain_def)

lemma acct_HoleValue: "acct buf (HoleValue buf) 0 0"
  unfolding HoleValue_def seqs.simps
  by (intro acct_intros grammar_sound sound_intros acct_Identifier acct_WhiteSpacing)
     (simp_all add: plain_def)

lemma acct_StringValue_char: "acct buf (StringValue_char buf) 0 0"
  unfolding StringValue_char_def
  by (intro acct_intros)

lemma acct_StringValue: "acct buf (StringValue buf) 0 0"
  unfolding StringValue_def
  by (intro acct_intros grammar_sound sound_intros acct_StringValue_char)
     (simp_all add: plain_def)

lemma acct_Value: "acct buf (Value buf) 0 0"
  unfolding Value_def
  by (intro acct_intros grammar_sound sound_intros acct_CidrValue acct_IpValue
        acct_IntRangeValue acct_IntValue acct_RefValue acct_AliasValue acct_HoleValue
        acct_StringValue)
     (simp_all add: plain_def)

lemma acct_Param: "acct buf (Param buf) 0 0"
  unfolding Param_def seqs.simps
  by (intro acct_intros grammar_sound sound_intros acct_Identifier acct_Equal acct_Value
        acct_WhiteSpacing)
     (simp_all add: plain_def)

lemma acct_Params: "acct buf (Params buf) 0 0"
  unfolding Params_def
  by (intro acct_intros grammar_sound sound_intros acct_Param) (simp_all add: plain_def)

text \<open>\<open>Expr\<close>: the parts before \<^verbatim>\<open>add(ruleAction3, position)\<close> add no counted record,
  then come one \<open>Action3\<close> record and the \<open>Expr\<close> record.\<close>

lemma acct_Expr: "acct buf (Expr buf) 0 0"
  unfolding Expr_def seqs.simps
  by (intro acct_rule_fn acct_tok_Expr acct_seq acct_Action3 acct_intros grammar_sound
        sound_intros acct_Action acct_MustWhiteSpacing acct_Entity acct_Params)
     (simp_all add: plain_def)

lemma acct_Declaration: "acct buf (Declaration buf) 0 0"
  unfolding Declaration_def seqs.simps
  by (intro acct_intros grammar_sound sound_intros acct_Identifier acct_Equal acct_Expr)
     (simp_all add: plain_def)

lemma seq_lit_first:
  "seq (lit buf c) q s = Some (True, s') \<Longrightarrow> rune_at buf (position s) = Some c"
  by (auto simp: seq_def lit_def split: option.splits if_splits bool.splits)

text \<open>\<open>Comment\<close>: the alternative of \<^verbatim>\<open>#\<close> adds no counted record and its \<open>Comment\<close> record
  begins at \<^verbatim>\<open>#\<close>; the alternative of \<^verbatim>\<open>//\<close> adds one \<open>Action13\<close> record and its
  \<open>Comment\<close> record begins at \<^verbatim>\<open>/\<close>.\<close>

lemma acct_Comment: "acct buf (Comment buf) 0 0"
proof (rule acctI)
  fix s s' assume i: "inv buf s" and c: "Comment buf s = Some (True, s')"
  let ?U = "seq (notp (EndOfLine buf)) (matchDot buf)"
  let ?H = "seq (lit buf (rune CHR ''#'')) (star ?U)"
  let ?S = "seq (lit buf (rune CHR ''/'')) (seq (lit buf (rune CHR ''/'')) (seq (star ?U) (act ruleAction13)))"
  have sH: "sound buf ?H" and sS: "sound buf ?S"
    by (intro sound_intros grammar_sound)+
  have aH: "acct buf ?H 0 0"
    by (intro acct_intros grammar_sound sound_intros)
  have aS: "acct buf ?S 0 1"
    by (intro acct_seq acct_Action13 acct_intros grammar_sound sound_intros)
  from c obtain s1 where b: "alt ?H ?S s = Some (True, s1)"
      and a: "add ruleComment (position s) s1 = Some s'"
    by (auto simp: Comment_def tok_True)
  from sound_res [OF sound_alt [OF sH sS] i b] have i1: "inv buf s1" and e: "ext s s1"
    by simp_all
  from e have le: "position s \<le> position s1" by (simp add: ext_def)
  note v = visible_add [OF i1 le a]
  have ne: "rune CHR ''#'' \<noteq> rune CHR ''/''"
    by (simp add: rune_def)
  from b consider "?H s = Some (True, s1)"
    | s0 where "?H s = Some (False, s0)" "?S (restore s s0) = Some (True, s1)"
    by (auto simp: alt_True)
  then show "d3 s' = d3 s + 0 \<and> d13 buf s' = d13 buf s + 0 \<and> dhash buf s' = dhash buf s"
  proof cases
    case 1
    from seq_lit_first [OF 1] have "rune_at buf (position s) = Some (rune CHR ''#'')" .
    with v acctD [OF aH i 1] ne show ?thesis
      by (simp add: d3_def d13_def dhash_def count_rule_def count_slash_def count_hash_def
            slash_comment_def hash_comment_def)
  next
    case 2
    from sound_res [OF sH i 2(1)] have s0: "inv buf s0" "ext s s0" by simp_all
    from restore_ok [OF i s0] have ir: "inv buf (restore s s0)" by simp
    from seq_lit_first [OF 2(2)] have "rune_at buf (position s) = Some (rune CHR ''/'')"
      by simp
    with v acctD [OF aS ir 2(2)] restore_balance [OF i s0] ne show ?thesis
      by (simp add: d3_def d13_def dhash_def count_rule_def count_slash_def count_hash_def
            slash_comment_def hash_comment_def)
  qed
qed

lemma acct_Statement: "acct buf (Statement buf) 0 0"
  unfolding Statement_def seqs.simps
  by (intro acct_intros grammar_sound sound_intros acct_Spacing acct_Expr acct_Declaration
        acct_Comment acct_EndOfLine)
     (simp_all add: plain_def)

lemma acct_EndOfFile: "acct buf (EndOfFile buf) 0 0"
  unfolding EndOfFile_def
  by (intro acct_intros sound_intros) (simp_all add: plain_def)

lemma acct_Script: "acct buf (Script buf) 0 0"
  unfolding Script_def seqs.simps
  by (intro acct_intros grammar_sound sound_intros acct_Spacing acct_Statement acct_EndOfFile)
     (simp_all add: plain_def)

subsection \<open>\<^verbatim>\<open>Execute\<close>\<close>

lemma Execute_loop_LineDone:
  "Execute_loop buf n ts reg = Some cs \<Longrightarrow>
     count_LineDone cs = count_rule ruleAction3 ts + count_rule ruleAction13 ts"
proof (induction ts arbitrary: reg cs)
  case Nil
  then show ?case by (simp add: count_LineDone_def count_rule_def)
next
  case (Cons t ts)
  show ?case
  proof (cases "pegRule t = ruleAction3 \<or> pegRule t = ruleAction13")
    case True
    with Cons.prems obtain cs' where "Execute_loop buf n ts reg = Some cs'" "cs = LineDone # cs'"
      by auto
    with Cons.IH [of reg cs'] True show ?thesis
      by (auto simp: count_LineDone_def count_rule_def)
  next
    case False
    then have "\<exists>reg' cs'. Execute_loop buf n ts reg' = Some cs' \<and>
        count_LineDone cs = count_LineDone cs'"
      using Cons.prems
      by (cases "pegRule t") (fastforce simp: count_LineDone_def split: option.splits)+
    then obtain reg' cs' where "Execute_loop buf n ts reg' = Some cs'"
        "count_LineDone cs = count_LineDone cs'"
      by blast
    with Cons.IH [of reg' cs'] False show ?thesis
      by (simp add: count_rule_def)
  qed
qed

lemma Execute_loop_returns:
  "\<forall>t \<in> set ts. tbegin t \<le> tend t \<and> tend t \<le> length buf \<Longrightarrow>
     \<exists>cs. Execute_loop buf n ts reg = Some cs"
proof (induction ts arbitrary: reg)
  case Nil
  then show ?case by simp
next
  case (Cons t ts)
  from Cons.prems have "\<exists>x. slice buf n (tbegin t) (tend t) = Some x"
    by (simp add: slice_def)
  moreover from Cons.IH Cons.prems have "\<exists>cs. Execute_loop buf n ts x = Some cs" for x
    by simp
  ultimately show ?case
    by (cases "pegRule t") (auto split: option.splits)
qed

text \<open>
  C6. After a successful \<^verbatim>\<open>Parse\<close>, \<^verbatim>\<open>Execute\<close> returns and the number of its calls of
  \<^verbatim>\<open>LineDone\<close> is the number of \<open>Expr\<close> records plus the number of \<open>Comment\<close> records
  that begin at \<^verbatim>\<open>/\<close>: there is one \<open>Action3\<close> record for each \<open>Expr\<close> record, one
  \<open>Action13\<close> record for each \<open>Comment\<close> record that begins at \<^verbatim>\<open>/\<close>, and every other
  \<open>Comment\<close> record begins at \<^verbatim>\<open>#\<close> and has none.
\<close>

theorem LineDone_calls:
  assumes "Parse (new_Peg k text) = Some (None, p)"
  shows "\<exists>cs. Execute p = Some cs \<and>
           count_LineDone cs =
             count_rule ruleExpr (Tokens (tokens32 p)) + count_slash (buffer p) (Tokens (tokens32 p)) \<and>
           count_rule ruleAction3 (Tokens (tokens32 p)) = count_rule ruleExpr (Tokens (tokens32 p)) \<and>
           count_rule ruleAction13 (Tokens (tokens32 p)) = count_slash (buffer p) (Tokens (tokens32 p)) \<and>
           count_rule ruleComment (Tokens (tokens32 p)) =
             count_slash (buffer p) (Tokens (tokens32 p)) + count_hash (buffer p) (Tokens (tokens32 p))"
proof -
  let ?p = "new_Peg k text"
  let ?buf = "buffer ?p"
  from Parse_success [OF assms] obtain s where
    s: "Script ?buf (vars ?p) = Some (True, s)" and t: "Tokens (tokens32 p) = visible s"
    and b: "buffer p = ?buf"
    by blast
  have v0: "visible (vars ?p) = []"
    by (simp add: visible_def vars_new_Peg)
  from acctD [OF acct_Script inv_new_Peg s] v0
  have bal: "d3 s = 0" "d13 ?buf s = 0" "dhash ?buf s = 0"
    by (simp_all add: d3_def d13_def dhash_def count_rule_def count_slash_def count_hash_def)
  from sound_res [OF sound_Script inv_new_Peg s] have i: "inv ?buf s" by simp
  then have "\<forall>t \<in> set (visible s). tbegin t \<le> tend t \<and> tend t \<le> length ?buf"
    by (fastforce simp: visible_tree inv_def)
  from Execute_loop_returns [OF this] obtain cs where
    cs: "Execute_loop ?buf (spare p) (visible s) [] = Some cs"
    by blast
  from Execute_loop_LineDone [OF cs] bal cs t b show ?thesis
    by (auto simp: Execute_def d3_def d13_def dhash_def)
qed

theorem LineDone_calls_witness:
  "map_option fst (Parse (new_Peg 0 (runes (''# a'' @ [CHR 0x0A] @ ''// b'' @ [CHR 0x0A] @ ''create vpc'')))) =
     Some None \<and>
   run 0 (runes (''# a'' @ [CHR 0x0A] @ ''// b'' @ [CHR 0x0A] @ ''create vpc'')) =
     Some (Inr [LineDone, addAction (runes ''create''), addEntity (runes ''vpc''), LineDone]) \<and>
   (\<exists>p. Parse (new_Peg 0 (runes (''# a'' @ [CHR 0x0A] @ ''// b'' @ [CHR 0x0A] @ ''create vpc''))) =
          Some (None, p) \<and>
        count_rule ruleExpr (Tokens (tokens32 p)) +
          count_slash (buffer p) (Tokens (tokens32 p)) = 2)"
proof -
  let ?t = "runes (''# a'' @ [CHR 0x0A] @ ''// b'' @ [CHR 0x0A] @ ''create vpc'')"
  have e: "map_option fst (Parse (new_Peg 0 ?t)) = Some None"
    by code_simp
  have r: "run 0 ?t = Some (Inr [LineDone, addAction (runes ''create''), addEntity (runes ''vpc''), LineDone])"
    by code_simp
  from e obtain p where p: "Parse (new_Peg 0 ?t) = Some (None, p)"
    by (cases "Parse (new_Peg 0 ?t)") auto
  from LineDone_calls [OF p] obtain cs where cs: "Execute p = Some cs"
      "count_LineDone cs =
         count_rule ruleExpr (Tokens (tokens32 p)) + count_slash (buffer p) (Tokens (tokens32 p))"
    by blast
  from r p cs(1) have "cs = [LineDone, addAction (runes ''create''), addEntity (runes ''vpc''), LineDone]"
    by (simp add: run_def)
  with cs(2) have "count_rule ruleExpr (Tokens (tokens32 p)) +
      count_slash (buffer p) (Tokens (tokens32 p)) = 2"
    by (simp add: count_LineDone_def)
  with e r p show ?thesis by blast
qed


section \<open>A script needs a statement\<close>

lemma first_in_lit: "c \<in> A \<Longrightarrow> first_in buf (lit buf c) A"
  by (auto simp: first_in_def lit_def split: option.splits if_splits)

lemma first_in_range: "{lo..hi} \<subseteq> A \<Longrightarrow> first_in buf (range buf lo hi) A"
  by (auto simp: first_in_def range_def split: option.splits if_splits)

lemma first_in_lits: "rune c \<in> A \<Longrightarrow> first_in buf (lits buf (c # cs)) A"
  unfolding first_in_def
proof (intro allI impI)
  fix s s' assume c: "rune c \<in> A" and "lits buf (c # cs) s = Some (True, s')"
  from lits_first [OF this(2)] obtain s1 where "lit buf (rune c) s = Some (True, s1)"
    by blast
  then have "rune_at buf (position s) = Some (rune c)"
    by (auto simp: lit_def split: option.splits if_splits)
  with c show "\<exists>c \<in> A. rune_at buf (position s) = Some c" by simp
qed

lemma first_in_seq: "first_in buf p A \<Longrightarrow> first_in buf (seq p q) A"
  by (auto simp: first_in_def seq_True)

lemma first_in_alt: "first_in buf p A \<Longrightarrow> first_in buf q A \<Longrightarrow> first_in buf (alt p q) A"
  unfolding first_in_def alt_True
  by (metis position_restore)

lemma first_in_switch: "(\<And>c. first_in buf (f c) A) \<Longrightarrow> first_in buf (switch buf f) A"
  unfolding first_in_def switch_def
  by (fastforce split: option.splits)

lemma first_in_if: "first_in buf p A \<Longrightarrow> first_in buf q A \<Longrightarrow> first_in buf (if b then p else q) A"
  by simp

lemma first_in_tok: "first_in buf p A \<Longrightarrow> first_in buf (tok r p) A"
  by (auto simp: first_in_def tok_True)

lemma first_in_rule_fn: "first_in buf p A \<Longrightarrow> first_in buf (rule_fn p) A"
  by (auto simp: first_in_def rule_fn_True)

lemmas first_in_intros =
  first_in_lit first_in_range first_in_lits first_in_seq first_in_alt first_in_switch
  first_in_if first_in_tok first_in_rule_fn

lemma first_in_Identifier: "first_in buf (Identifier buf) solid"
  unfolding Identifier_def Identifier_char_def
  by (intro first_in_intros) (auto simp: solid_def rune_def endSymbol_def)

lemma first_in_Expr: "first_in buf (Expr buf) solid"
  unfolding Expr_def Action_def seqs.simps
  by (intro first_in_intros) (auto simp: solid_def rune_def endSymbol_def)

lemma first_in_Declaration: "first_in buf (Declaration buf) solid"
  unfolding Declaration_def seqs.simps
  by (intro first_in_intros first_in_Identifier)

lemma first_in_Comment: "first_in buf (Comment buf) solid"
  unfolding Comment_def seqs.simps
  by (intro first_in_intros) (auto simp: solid_def rune_def endSymbol_def)

text \<open>A successful \<open>Script\<close> has met a rune that is neither spacing nor the end symbol.\<close>

lemma Script_solid:
  assumes "Script buf s = Some (True, s')"
  shows "\<exists>i c. rune_at buf i = Some c \<and> c \<in> solid"
proof -
  let ?choice = "alt (Expr buf) (alt (Declaration buf) (Comment buf))"
  have f: "first_in buf ?choice solid"
    by (intro first_in_alt first_in_Expr first_in_Declaration first_in_Comment)
  from assms obtain s1 s2 where "?choice s1 = Some (True, s2)"
    unfolding Script_def Statement_def seqs.simps rule_fn_True tok_True seq_True
    by blast
  with f show ?thesis
    unfolding first_in_def by blast
qed

lemma rune_at_append_sentinel:
  "rune_at (xs @ [endSymbol]) i = Some c \<Longrightarrow> c \<in> set xs \<or> c = endSymbol"
  by (auto simp: rune_at_Some nth_append)

text \<open>
  C9, amended. A text that holds spaces, tabs and line ends only (the empty text
  too) is not accepted: \<open>Script\<close> asks for at least one \<open>Statement\<close>, and \<^verbatim>\<open>Parse\<close>
  returns an error.
\<close>

theorem zero_statements_rejected:
  assumes "set text \<subseteq> {rune CHR '' '', rune CHR 0x09, rune CHR 0x0A, rune CHR 0x0D}"
  shows "\<exists>e p. Parse (new_Peg k text) = Some (Some e, p)"
proof -
  let ?p = "new_Peg k text"
  have ne: "endSymbol \<notin> set text"
    using assms by (auto simp: rune_def endSymbol_def)
  then have "text = [] \<or> last text \<noteq> endSymbol"
    using last_in_set [of "text"] by metis
  then have buf: "buffer ?p = text @ [endSymbol]"
    by (auto simp: buffer_new_Peg)
  from sound_Script inv_new_Peg obtain b s where
    s: "Script (buffer ?p) (vars ?p) = Some (b, s)" "inv (buffer ?p) s"
    by (rule soundD)
  have "\<not> b"
  proof
    assume b
    with s(1) have "Script (buffer ?p) (vars ?p) = Some (True, s)" by simp
    from Script_solid [OF this] obtain i c where "rune_at (buffer ?p) i = Some c" "c \<in> solid"
      by blast
    with buf rune_at_append_sentinel have "c \<in> set text \<or> c = endSymbol" "c \<in> solid"
      by auto
    with assms show False by (auto simp: solid_def)
  qed
  with s(1) show ?thesis by (simp add: Parse_def Let_def)
qed

theorem zero_statements_rejected_witness:
  "set (runes ''  '') \<subseteq> {rune CHR '' '', rune CHR 0x09, rune CHR 0x0A, rune CHR 0x0D} \<and>
   (\<exists>e p. Parse (new_Peg 0 (runes ''  '')) = Some (Some e, p)) \<and>
   (\<exists>e p. Parse (new_Peg 0 []) = Some (Some e, p))"
proof -
  have h: "set (runes ''  '') \<subseteq> {rune CHR '' '', rune CHR 0x09, rune CHR 0x0A, rune CHR 0x0D}"
    by (simp add: runes_def)
  have e: "set [] \<subseteq> {rune CHR '' '', rune CHR 0x09, rune CHR 0x0A, rune CHR 0x0D}"
    by simp
  from zero_statements_rejected [OF h] zero_statements_rejected [OF e] h show ?thesis
    by blast
qed


section \<open>The error report\<close>

lemma translate_search_correct:
  assumes "ps \<noteq> []" "sorted ps" "\<forall>p \<in> set ps. length pre \<le> p \<and> p < length pre + length cs"
  shows "\<exists>tr'. translate_search cs (length pre) ps
             (1 + length (filter (\<lambda>c. c = rune CHR 0x0A) pre))
             (length (takeWhile (\<lambda>c. c \<noteq> rune CHR 0x0A) (rev pre))) tr = Some tr' \<and>
           (\<forall>p \<in> set ps. tr' p = Some \<lparr>line = line_of (pre @ cs) p, symbol = symbol_of (pre @ cs) p\<rparr>) \<and>
           (\<forall>q. q \<notin> set ps \<longrightarrow> tr' q = tr q)"
  using assms
proof (induction cs arbitrary: pre ps tr)
  case Nil
  then show ?case by (cases ps) auto
next
  case (Cons c cs)
  let ?nl = "rune CHR 0x0A"
  let ?pre = "pre @ [c]"
  let ?ln = "1 + length (filter (\<lambda>c. c = ?nl) pre)"
  let ?sy = "length (takeWhile (\<lambda>c. c \<noteq> ?nl) (rev pre))"
  let ?ln' = "if c = ?nl then ?ln + 1 else ?ln"
  let ?sy' = "if c = ?nl then 0 else ?sy + 1"
  have ln': "1 + length (filter (\<lambda>c. c = ?nl) ?pre) = ?ln'"
    and sy': "length (takeWhile (\<lambda>c. c \<noteq> ?nl) (rev ?pre)) = ?sy'"
    by simp_all
  have app: "?pre @ cs = pre @ c # cs" by simp
  have here: "line_of (pre @ c # cs) (length pre) = ?ln'" "symbol_of (pre @ c # cs) (length pre) = ?sy'"
    by (simp_all add: line_of_def symbol_of_def)
  from Cons.prems(1) obtain p ps' where ps: "ps = p # ps'" by (cases ps) auto
  show ?case
  proof (cases "length pre = p")
    case True
    let ?tr1 = "tr(p \<mapsto> \<lparr>line = ?ln', symbol = ?sy'\<rparr>)"
    let ?rest = "dropWhile (\<lambda>q. length pre = q) ps'"
    have dropped: "\<forall>q \<in> set ps'. q \<notin> set ?rest \<longrightarrow> q = p"
      using True by (metis (mono_tags, lifting) dropWhile_eq_Nil_conv set_dropWhileD
          takeWhile_dropWhile_id set_append Un_iff set_takeWhileD)
    show ?thesis
    proof (cases "?rest = []")
      case Nil': True
      with \<open>length pre = p\<close> have "\<forall>q \<in> set ps'. q = p"
        by (auto simp: dropWhile_eq_Nil_conv)
      with \<open>length pre = p\<close> Nil' ps here show ?thesis
        by (cases "c = ?nl") (auto simp: Let_def)
    next
      case False
      have srt: "sorted ?rest"
        using Cons.prems(2) ps by (simp add: sorted_dropWhile)
      have "\<forall>q \<in> set ?rest. length pre < q"
      proof
        fix q assume q: "q \<in> set ?rest"
        from False have h: "hd ?rest \<noteq> length pre"
          using hd_dropWhile [of "\<lambda>q. length pre = q" ps'] by auto
        from q srt False have "hd ?rest \<le> q"
          by (cases ?rest) auto
        moreover from False have "hd ?rest \<in> set ps'"
          by (metis hd_in_set set_dropWhileD)
        then have "length pre \<le> hd ?rest"
          using Cons.prems(3) ps by auto
        ultimately show "length pre < q" using h by simp
      qed
      moreover have "\<forall>q \<in> set ?rest. q < length pre + length (c # cs)"
        using Cons.prems(3) ps by (auto dest: set_dropWhileD)
      ultimately have bnd: "\<forall>q \<in> set ?rest. length ?pre \<le> q \<and> q < length ?pre + length cs"
        by auto
      from Cons.IH [of ?rest ?pre ?tr1, OF False srt bnd] obtain tr' where
        tr': "translate_search cs (length ?pre) ?rest ?ln' ?sy' ?tr1 = Some tr'"
          "\<forall>q \<in> set ?rest. tr' q = Some \<lparr>line = line_of (?pre @ cs) q, symbol = symbol_of (?pre @ cs) q\<rparr>"
          "\<forall>q. q \<notin> set ?rest \<longrightarrow> tr' q = ?tr1 q"
        unfolding ln' sy' by blast
      have notin: "p \<notin> set ?rest"
        using \<open>\<forall>q \<in> set ?rest. length pre < q\<close> True by auto
      have r: "translate_search (c # cs) (length pre) ps ?ln ?sy tr = Some tr'"
        using tr'(1) \<open>length pre = p\<close> ps False
        by (cases "c = ?nl") (auto simp: Let_def dropWhile_eq_Nil_conv)
      have "tr' q = Some \<lparr>line = line_of (pre @ c # cs) q, symbol = symbol_of (pre @ c # cs) q\<rparr>"
        if "q \<in> set ps" for q
      proof (cases "q \<in> set ?rest")
        case True
        with tr'(2) show ?thesis by (simp add: app)
      next
        case False
        with that ps dropped have "q = p" by auto
        with False tr'(3) here \<open>length pre = p\<close> show ?thesis by auto
      qed
      moreover have "tr' q = tr q" if "q \<notin> set ps" for q
      proof -
        from that ps have "q \<noteq> p" "q \<notin> set ?rest"
          by (auto dest: set_dropWhileD)
        with tr'(3) show ?thesis by simp
      qed
      ultimately show ?thesis using r by blast
    qed
  next
    case False
    have bnd: "\<forall>q \<in> set ps. length ?pre \<le> q \<and> q < length ?pre + length cs"
    proof
      fix q assume q: "q \<in> set ps"
      with Cons.prems(2) ps have "p \<le> q" by auto
      moreover from Cons.prems(3) ps have "length pre \<le> p" by simp
      ultimately have "length pre < q" using False by simp
      with Cons.prems(3) q show "length ?pre \<le> q \<and> q < length ?pre + length cs" by auto
    qed
    from Cons.IH [of ps ?pre tr, OF Cons.prems(1,2) bnd] obtain tr' where
      tr': "translate_search cs (length ?pre) ps ?ln' ?sy' tr = Some tr'"
        "\<forall>q \<in> set ps. tr' q = Some \<lparr>line = line_of (?pre @ cs) q, symbol = symbol_of (?pre @ cs) q\<rparr>"
        "\<forall>q. q \<notin> set ps \<longrightarrow> tr' q = tr q"
      unfolding ln' sy' by blast
    have "translate_search (c # cs) (length pre) ps ?ln ?sy tr = Some tr'"
      using tr'(1) False ps by (cases "c = ?nl") (auto simp: Let_def)
    with tr'(2,3) show ?thesis by (simp add: app)
  qed
qed

lemma translatePositions_pair:
  assumes "b \<le> e" "e < length buf"
  shows "\<exists>tr. translatePositions buf [b, e] = Some tr \<and>
           translation tr b = \<lparr>line = line_of buf b, symbol = symbol_of buf b\<rparr> \<and>
           translation tr e = \<lparr>line = line_of buf e, symbol = symbol_of buf e\<rparr>"
proof -
  have s: "sort [b, e] = [b, e]" using assms(1) by simp
  from translate_search_correct [of "[b, e]" "[]" buf Map.empty] assms
  obtain tr where "translate_search buf 0 [b, e] 1 0 Map.empty = Some tr"
      "tr b = Some \<lparr>line = line_of buf b, symbol = symbol_of buf b\<rparr>"
      "tr e = Some \<lparr>line = line_of buf e, symbol = symbol_of buf e\<rparr>"
    by auto
  then show ?thesis
    unfolding translatePositions_def s by (simp add: translation_def)
qed

lemma Parse_failure:
  assumes "Parse (new_Peg k text) = Some (Some e, p)"
  shows "\<exists>s. Script (buffer (new_Peg k text)) (vars (new_Peg k text)) = Some (False, s) \<and>
           inv (buffer (new_Peg k text)) s \<and> ext (vars (new_Peg k text)) s \<and> err_max e = maxTok s \<and>
           buffer (err_p e) = buffer (new_Peg k text) \<and> Pretty (err_p e) = Pretty (new_Peg k text)"
proof -
  let ?p = "new_Peg k text"
  from sound_Script inv_new_Peg obtain b s where
    s: "Script (buffer ?p) (vars ?p) = Some (b, s)" "inv (buffer ?p) s" "ext (vars ?p) s"
    by (rule soundD)
  from s(2) have le: "int (tokenIndex s) \<le> cap_tree (store s)" by (simp add: inv_def cap_tree_def)
  from assms s(1) le have b: "\<not> b"
    by (cases b) (auto simp: Parse_def Let_def Trim_def)
  with assms s show ?thesis
    by (auto simp: Parse_def Let_def)
qed

text \<open>
  C8, as stated, fails. On the text \<^verbatim>\<open>create vpc\<close>, newline, \<^verbatim>\<open>!\<close> the parse fails and
  \<^verbatim>\<open>max\<close> is the record of \<open>EndOfLine\<close> from 10 to 11, a rule that matched there: the
  report names \<open>EndOfLine\<close>, and for the offset 10, the newline that ends line 1, it
  gives line 2 and symbol 0.
\<close>

theorem error_report_counterexample:
  "Option.bind (map_option projl (run 0 (runes (''create vpc'' @ [CHR 0x0A] @ ''!'')))) Error_args =
     Some (''EndOfLine'', 2, 0, 2, 1, [rune CHR 0x0A]) \<and>
   map_option (err_max \<circ> projl) (run 0 (runes (''create vpc'' @ [CHR 0x0A] @ ''!''))) =
     Some \<lparr>pegRule = ruleEndOfLine, tbegin = 10, tend = 11\<rparr> \<and>
   map_option fst (EndOfLine (runes (''create vpc'' @ [CHR 0x0A] @ ''!'') @ [endSymbol])
       \<lparr>position = 10, tokenIndex = 0, store = \<lparr>tree = [], unused = 32767, len_tree = 32767\<rparr>, maxTok = token_zero\<rparr>) =
     Some True"
  by code_simp

text \<open>
  C8, amended. When \<^verbatim>\<open>Parse\<close> returns an error, the error holds the value that \<^verbatim>\<open>max\<close>
  has when \<open>Script\<close> returns \<^verbatim>\<open>false\<close>, and \<^verbatim>\<open>Error\<close> returns a newline and the format
  filled with: the name of the rule of that record, which is either the zero record
  (named \<open>Unknown\<close>, from 0 to 0, as for the text \<^verbatim>\<open>!\<close> and for the empty text) or a
  record with \<^verbatim>\<open>begin < end\<close>, and in both cases \<^verbatim>\<open>end < len(buffer)\<close>; then for \<^verbatim>\<open>begin\<close>
  and for \<^verbatim>\<open>end\<close> of that record the line, which is one more than the number of
  \<^verbatim>\<open>'\n'\<close> up to and including the offset, and the symbol, which is the number of
  runes after the last \<^verbatim>\<open>'\n'\<close> up to and including the offset (so 0 exactly at a
  \<^verbatim>\<open>'\n'\<close>); then the quoted text \<^verbatim>\<open>string(buffer[begin:end])\<close>.
\<close>

theorem error_report:
  assumes "Parse (new_Peg k text) = Some (Some e, p)"
  shows "Error Quote e =
           Some ([CHR 0x0A] @
             Sprintf_format (Pretty (err_p e)) (rul3s (pegRule (err_max e)))
               (line_of (buffer (err_p e)) (tbegin (err_max e)))
               (symbol_of (buffer (err_p e)) (tbegin (err_max e)))
               (line_of (buffer (err_p e)) (tend (err_max e)))
               (symbol_of (buffer (err_p e)) (tend (err_max e)))
               (Quote (string_of (take (tend (err_max e) - tbegin (err_max e))
                                       (drop (tbegin (err_max e)) (buffer (err_p e))))))) \<and>
         (\<exists>s. Script (buffer (new_Peg k text)) (vars (new_Peg k text)) = Some (False, s) \<and>
              err_max e = maxTok s) \<and>
         buffer (err_p e) = buffer (new_Peg k text) \<and>
         (err_max e = \<lparr>pegRule = ruleUnknown, tbegin = 0, tend = 0\<rparr> \<or>
          tbegin (err_max e) < tend (err_max e)) \<and>
         tend (err_max e) < length (buffer (err_p e)) \<and>
         (\<forall>i < length (buffer (err_p e)).
            (symbol_of (buffer (err_p e)) i = 0 \<longleftrightarrow> buffer (err_p e) ! i = rune CHR 0x0A)) \<and>
         Option.bind (map_option projl (run k (runes ''!''))) Error_args =
           Some (''Unknown'', 1, 1, 1, 1, []) \<and>
         Option.bind (map_option projl (run k [])) Error_args =
           Some (''Unknown'', 1, 1, 1, 1, [])"
proof -
  from Parse_failure [OF assms] obtain s where
    s: "inv (buffer (new_Peg k text)) s" "ext (vars (new_Peg k text)) s" "err_max e = maxTok s"
      "buffer (err_p e) = buffer (new_Peg k text)"
    and sc: "Script (buffer (new_Peg k text)) (vars (new_Peg k text)) = Some (False, s)"
    by blast
  let ?buf = "buffer (err_p e)" and ?m = "err_max e"
  from s have m: "tbegin ?m \<le> tend ?m" "tend ?m < length ?buf"
    by (simp_all add: inv_def)
  from sc s(3) have fin: "\<exists>s. Script (buffer (new_Peg k text)) (vars (new_Peg k text)) = Some (False, s) \<and>
      err_max e = maxTok s"
    by blast
  from s(2,3) have z: "?m = \<lparr>pegRule = ruleUnknown, tbegin = 0, tend = 0\<rparr> \<or> tbegin ?m < tend ?m"
    by (auto simp: ext_def vars_new_Peg token_zero_def)
  from translatePositions_pair [OF m] obtain tr where
    tr: "translatePositions ?buf [tbegin ?m, tend ?m] = Some tr"
      "translation tr (tbegin ?m) = \<lparr>line = line_of ?buf (tbegin ?m), symbol = symbol_of ?buf (tbegin ?m)\<rparr>"
      "translation tr (tend ?m) = \<lparr>line = line_of ?buf (tend ?m), symbol = symbol_of ?buf (tend ?m)\<rparr>"
    by blast
  have sl: "slice ?buf n (tbegin ?m) (tend ?m) = Some (take (tend ?m - tbegin ?m) (drop (tbegin ?m) ?buf))"
    for n
    using m by (simp add: slice_def)
  have sym: "symbol_of ?buf i = 0 \<longleftrightarrow> ?buf ! i = rune CHR 0x0A" if "i < length ?buf" for i
    using that by (simp add: symbol_of_def take_Suc_conv_app_nth takeWhile_eq_Nil_iff)
  have r1: "Option.bind (map_option projl (run k (runes ''!''))) Error_args =
      Some (''Unknown'', 1, 1, 1, 1, [])"
    by code_simp
  have r2: "Option.bind (map_option projl (run k [])) Error_args =
      Some (''Unknown'', 1, 1, 1, 1, [])"
    by code_simp
  have "Error Quote e =
           Some ([CHR 0x0A] @
             Sprintf_format (Pretty (err_p e)) (rul3s (pegRule ?m))
               (line_of ?buf (tbegin ?m)) (symbol_of ?buf (tbegin ?m))
               (line_of ?buf (tend ?m)) (symbol_of ?buf (tend ?m))
               (Quote (string_of (take (tend ?m - tbegin ?m) (drop (tbegin ?m) ?buf)))))"
    using tr sl by (simp add: Error_def Error_args_def Let_def)
  with z m sym r1 r2 fin s(4) show ?thesis
    by blast
qed

theorem error_report_witness:
  "map_option isl (run 0 (runes ''create unknownentity'')) = Some True \<and>
   (\<exists>e p. Parse (new_Peg 0 (runes ''create unknownentity'')) = Some (Some e, p) \<and>
      err_max e = \<lparr>pegRule = ruleWhitespace, tbegin = 6, tend = 7\<rparr> \<and>
      Error (\<lambda>x. ''?'') e =
        Some ([CHR 0x0A] @ ''parse error near Whitespace (line 1 symbol 7 - line 1 symbol 8):'' @
              [CHR 0x0A] @ ''?'' @ [CHR 0x0A]))"
proof -
  let ?t = "runes ''create unknownentity''"
  have r: "map_option isl (run 0 ?t) = Some True"
    by code_simp
  have m: "map_option (err_max \<circ> projl) (run 0 ?t) =
      Some \<lparr>pegRule = ruleWhitespace, tbegin = 6, tend = 7\<rparr>"
    by code_simp
  from r obtain e p where p: "Parse (new_Peg 0 ?t) = Some (Some e, p)"
    by (auto simp: run_def split: option.splits prod.splits)
  with m have em: "err_max e = \<lparr>pegRule = ruleWhitespace, tbegin = 6, tend = 7\<rparr>"
    by (simp add: run_def)
  from Parse_failure [OF p] have b: "buffer (err_p e) = buffer (new_Peg 0 ?t)"
      and pr: "Pretty (err_p e) = Pretty (new_Peg 0 ?t)"
    by blast+
  have l: "line_of (buffer (new_Peg 0 ?t)) 6 = 1" "symbol_of (buffer (new_Peg 0 ?t)) 6 = 7"
      "line_of (buffer (new_Peg 0 ?t)) 7 = 1" "symbol_of (buffer (new_Peg 0 ?t)) 7 = 8"
    by code_simp+
  have f: "Sprintf_format (Pretty (new_Peg 0 ?t)) (rul3s ruleWhitespace) 1 7 1 8 ''?'' =
      ''parse error near Whitespace (line 1 symbol 7 - line 1 symbol 8):'' @ [CHR 0x0A] @ ''?'' @ [CHR 0x0A]"
    by code_simp
  from error_report [OF p, of "\<lambda>x. ''?''"] em b pr l f
  have "Error (\<lambda>x. ''?'') e =
      Some ([CHR 0x0A] @ ''parse error near Whitespace (line 1 symbol 7 - line 1 symbol 8):'' @
            [CHR 0x0A] @ ''?'' @ [CHR 0x0A])"
    by simp
  with r p em show ?thesis by blast
qed


section \<open>Values\<close>

subsection \<open>Matchers and shapes\<close>


lemma yieldsI:
  assumes "\<And>s. inv buf s \<Longrightarrow> f (position s) = None \<Longrightarrow> \<exists>s'. m s = Some (False, s')"
    and "\<And>s e. inv buf s \<Longrightarrow> f (position s) = Some e \<Longrightarrow>
           \<exists>s' ts. m s = Some (True, s') \<and> position s' = e \<and>
             visible s' = visible s @ ts \<and> Q (position s) ts"
  shows "yields buf m f Q"
  unfolding yields_def
proof (intro allI impI)
  fix s assume i: "inv buf s"
  show "\<exists>b s'. m s = Some (b, s') \<and>
           (case f (position s) of
              None \<Rightarrow> \<not> b
            | Some e \<Rightarrow> b \<and> position s' = e \<and>
                (\<exists>ts. visible s' = visible s @ ts \<and> Q (position s) ts))"
  proof (cases "f (position s)")
    case None
    with assms(1) [OF i] show ?thesis by auto
  next
    case (Some e)
    with assms(2) [OF i] show ?thesis by auto
  qed
qed

lemma yields_None:
  assumes "yields buf m f Q" "inv buf s" "f (position s) = None"
  shows "\<exists>s'. m s = Some (False, s')"
  using assms unfolding yields_def by fastforce

lemma yields_Some:
  assumes "yields buf m f Q" "inv buf s" "f (position s) = Some e"
  shows "\<exists>s' ts. m s = Some (True, s') \<and> position s' = e \<and>
           visible s' = visible s @ ts \<and> Q (position s) ts"
  using assms unfolding yields_def by fastforce

lemma visible_position [simp]: "visible (s\<lparr>position := n\<rparr>) = visible s"
  by (simp add: visible_def)

lemma yields_lit: "yields buf (lit buf c) (one_of buf ((=) c)) (\<lambda>i ts. ts = [])"
proof (rule yieldsI)
  fix s assume "inv buf s" "one_of buf ((=) c) (position s) = None"
  then show "\<exists>s'. lit buf c s = Some (False, s')"
    using inv_in_range [of buf s] by (auto simp: lit_def one_of_def split: if_splits)
next
  fix s e assume "inv buf s" "one_of buf ((=) c) (position s) = Some e"
  then show "\<exists>s' ts. lit buf c s = Some (True, s') \<and> position s' = e \<and>
      visible s' = visible s @ ts \<and> ts = []"
    by (auto simp: lit_def one_of_def split: option.splits if_splits)
qed

lemma yields_range:
  "yields buf (range buf lo hi) (one_of buf (\<lambda>c. lo \<le> c \<and> c \<le> hi)) (\<lambda>i ts. ts = [])"
proof (rule yieldsI)
  fix s assume "inv buf s" "one_of buf (\<lambda>c. lo \<le> c \<and> c \<le> hi) (position s) = None"
  then show "\<exists>s'. range buf lo hi s = Some (False, s')"
    using inv_in_range [of buf s] by (auto simp: range_def one_of_def split: if_splits)
next
  fix s e assume "inv buf s" "one_of buf (\<lambda>c. lo \<le> c \<and> c \<le> hi) (position s) = Some e"
  then show "\<exists>s' ts. range buf lo hi s = Some (True, s') \<and> position s' = e \<and>
      visible s' = visible s @ ts \<and> ts = []"
    by (auto simp: range_def one_of_def split: option.splits if_splits)
qed

lemma yields_matchDot:
  "yields buf (matchDot buf) (one_of buf (\<lambda>c. c \<noteq> endSymbol)) (\<lambda>i ts. ts = [])"
proof (rule yieldsI)
  fix s assume "inv buf s" "one_of buf (\<lambda>c. c \<noteq> endSymbol) (position s) = None"
  then show "\<exists>s'. matchDot buf s = Some (False, s')"
    using inv_in_range [of buf s] by (auto simp: matchDot_def one_of_def split: if_splits)
next
  fix s e assume "inv buf s" "one_of buf (\<lambda>c. c \<noteq> endSymbol) (position s) = Some e"
  then show "\<exists>s' ts. matchDot buf s = Some (True, s') \<and> position s' = e \<and>
      visible s' = visible s @ ts \<and> ts = []"
    by (auto simp: matchDot_def one_of_def split: option.splits if_splits)
qed

lemma yields_seq:
  assumes "sound buf p" "yields buf p f Q1" "yields buf q g Q2"
  shows "yields buf (seq p q) (\<lambda>i. Option.bind (f i) g)
           (\<lambda>i ts. \<exists>t1 t2. ts = t1 @ t2 \<and> Q1 i t1 \<and> Q2 (the (f i)) t2)"
proof (rule yieldsI)
  fix s assume i: "inv buf s" and n: "Option.bind (f (position s)) g = None"
  show "\<exists>s'. seq p q s = Some (False, s')"
  proof (cases "f (position s)")
    case None
    from yields_None [OF assms(2) i None] show ?thesis by (auto simp: seq_def)
  next
    case (Some j)
    from yields_Some [OF assms(2) i Some] obtain s1 where
      p: "p s = Some (True, s1)" "position s1 = j"
      by blast
    from sound_res [OF assms(1) i p(1)] have i1: "inv buf s1" by simp
    from n Some p(2) have "g (position s1) = None" by simp
    from yields_None [OF assms(3) i1 this] p(1) show ?thesis by (auto simp: seq_def)
  qed
next
  fix s e assume i: "inv buf s" and n: "Option.bind (f (position s)) g = Some e"
  then obtain j where j: "f (position s) = Some j" "g j = Some e"
    by (cases "f (position s)") auto
  from yields_Some [OF assms(2) i j(1)] obtain s1 t1 where
    p: "p s = Some (True, s1)" "position s1 = j" "visible s1 = visible s @ t1" "Q1 (position s) t1"
    by blast
  from sound_res [OF assms(1) i p(1)] have i1: "inv buf s1" by simp
  from j(2) p(2) have "g (position s1) = Some e" by simp
  from yields_Some [OF assms(3) i1 this] obtain s2 t2 where
    q: "q s1 = Some (True, s2)" "position s2 = e" "visible s2 = visible s1 @ t2" "Q2 (position s1) t2"
    by blast
  with p j show "\<exists>s' ts. seq p q s = Some (True, s') \<and> position s' = e \<and>
      visible s' = visible s @ ts \<and>
      (\<exists>t1 t2. ts = t1 @ t2 \<and> Q1 (position s) t1 \<and> Q2 (the (f (position s))) t2)"
    by (auto simp: seq_def)
qed

lemma yields_alt:
  assumes "sound buf p" "yields buf p f Q1" "yields buf q g Q2"
  shows "yields buf (alt p q) (\<lambda>i. case f i of None \<Rightarrow> g i | Some e \<Rightarrow> Some e)
           (\<lambda>i ts. if f i = None then Q2 i ts else Q1 i ts)"
proof (rule yieldsI)
  fix s assume i: "inv buf s"
    and n: "(case f (position s) of None \<Rightarrow> g (position s) | Some e \<Rightarrow> Some e) = None"
  then have f: "f (position s) = None" and g: "g (position s) = None"
    by (auto split: option.splits)
  from yields_None [OF assms(2) i f] obtain s1 where p: "p s = Some (False, s1)" by blast
  from sound_res [OF assms(1) i p] have i1: "inv buf s1" "ext s s1" by simp_all
  from restore_ok [OF i i1] have ir: "inv buf (restore s s1)" by simp
  from g have "g (position (restore s s1)) = None" by simp
  from yields_None [OF assms(3) ir this] p show "\<exists>s'. alt p q s = Some (False, s')"
    by (auto simp: alt_def)
next
  fix s e assume i: "inv buf s"
    and n: "(case f (position s) of None \<Rightarrow> g (position s) | Some e \<Rightarrow> Some e) = Some e"
  show "\<exists>s' ts. alt p q s = Some (True, s') \<and> position s' = e \<and>
      visible s' = visible s @ ts \<and>
      (if f (position s) = None then Q2 (position s) ts else Q1 (position s) ts)"
  proof (cases "f (position s)")
    case (Some j)
    with n have "j = e" by simp
    with yields_Some [OF assms(2) i Some] Some show ?thesis by (auto simp: alt_def)
  next
    case None
    with n have g: "g (position s) = Some e" by simp
    from yields_None [OF assms(2) i None] obtain s1 where p: "p s = Some (False, s1)" by blast
    from sound_res [OF assms(1) i p] have i1: "inv buf s1" "ext s s1" by simp_all
    from restore_ok [OF i i1] have ir: "inv buf (restore s s1)" by simp
    have v: "visible (restore s s1) = visible s" using i i1 by (rule ext_visible)
    from g have "g (position (restore s s1)) = Some e" by simp
    from yields_Some [OF assms(3) ir this] p v None show ?thesis
      by (auto simp: alt_def)
  qed
qed

lemma yields_rule_fn: "yields buf p f Q \<Longrightarrow> yields buf (rule_fn p) f Q"
proof (rule yieldsI)
  fix s assume "yields buf p f Q" "inv buf s" "f (position s) = None"
  from yields_None [OF this] show "\<exists>s'. rule_fn p s = Some (False, s')"
    by (auto simp: rule_fn_def)
next
  fix s e assume "yields buf p f Q" "inv buf s" "f (position s) = Some e"
  from yields_Some [OF this] show "\<exists>s' ts. rule_fn p s = Some (True, s') \<and> position s' = e \<and>
      visible s' = visible s @ ts \<and> Q (position s) ts"
    by (auto simp: rule_fn_def)
qed

lemma yields_tok:
  assumes "sound buf p" "yields buf p f Q"
  shows "yields buf (tok r p) f
           (\<lambda>i ts. \<exists>t1. ts = t1 @ [\<lparr>pegRule = r, tbegin = i, tend = the (f i)\<rparr>] \<and> Q i t1)"
proof (rule yieldsI)
  fix s assume "inv buf s" "f (position s) = None"
  from yields_None [OF assms(2) this] show "\<exists>s'. tok r p s = Some (False, s')"
    by (auto simp: tok_def)
next
  fix s e assume i: "inv buf s" and f: "f (position s) = Some e"
  from yields_Some [OF assms(2) i f] obtain s1 t1 where
    p: "p s = Some (True, s1)" "position s1 = e" "visible s1 = visible s @ t1" "Q (position s) t1"
    by blast
  from sound_res [OF assms(1) i p(1)] have i1: "inv buf s1" "ext s s1" by simp_all
  from i1(2) have le: "position s \<le> position s1" by (simp add: ext_def)
  from add_ok [OF i1(1) le, of r] obtain s2 where
    a: "add r (position s) s1 = Some s2" "position s2 = position s1"
    by blast
  from visible_add [OF i1(1) le a(1)] p
  have "visible s2 = visible s @ t1 @ [\<lparr>pegRule = r, tbegin = position s, tend = e\<rparr>]"
    by simp
  with a p f show "\<exists>s' ts. tok r p s = Some (True, s') \<and> position s' = e \<and>
      visible s' = visible s @ ts \<and>
      (\<exists>t1. ts = t1 @ [\<lparr>pegRule = r, tbegin = position s, tend = the (f (position s))\<rparr>] \<and>
         Q (position s) t1)"
    by (auto simp: tok_def)
qed

lemma yields_act: "yields buf (act r) Some (\<lambda>i ts. ts = [\<lparr>pegRule = r, tbegin = i, tend = i\<rparr>])"
proof (rule yieldsI)
  fix s :: state assume "Some (position s) = None"
  then show "\<exists>s'. act r s = Some (False, s')" by simp
next
  fix s e assume i: "inv buf s" and e: "Some (position s) = Some e"
  from add_ok [OF i order_refl, of r] obtain s2 where
    a: "add r (position s) s = Some s2" "position s2 = position s"
    by blast
  from visible_add [OF i order_refl a(1)] a e
  show "\<exists>s' ts. act r s = Some (True, s') \<and> position s' = e \<and>
      visible s' = visible s @ ts \<and> ts = [\<lparr>pegRule = r, tbegin = position s, tend = position s\<rparr>]"
    by (auto simp: act_def)
qed

lemma yields_switch:
  assumes "\<And>c. yields buf (F c) (G c) (Q c)"
  shows "yields buf (switch buf F) (\<lambda>i. case rune_at buf i of None \<Rightarrow> None | Some c \<Rightarrow> G c i)
           (\<lambda>i ts. Q (the (rune_at buf i)) i ts)"
proof (rule yieldsI)
  fix s assume i: "inv buf s"
    and n: "(case rune_at buf (position s) of None \<Rightarrow> None | Some c \<Rightarrow> G c (position s)) = None"
  from i obtain c where c: "rune_at buf (position s) = Some c" using inv_in_range by blast
  with n have "G c (position s) = None" by simp
  from yields_None [OF assms i this] c show "\<exists>s'. switch buf F s = Some (False, s')"
    by (simp add: switch_def)
next
  fix s e assume i: "inv buf s"
    and n: "(case rune_at buf (position s) of None \<Rightarrow> None | Some c \<Rightarrow> G c (position s)) = Some e"
  from i obtain c where c: "rune_at buf (position s) = Some c" using inv_in_range by blast
  with n have "G c (position s) = Some e" by simp
  from yields_Some [OF assms i this] c
  show "\<exists>s' ts. switch buf F s = Some (True, s') \<and> position s' = e \<and>
      visible s' = visible s @ ts \<and> Q (the (rune_at buf (position s))) (position s) ts"
    by (simp add: switch_def)
qed

lemma yields_weaken:
  assumes "yields buf m f Q" "sound buf m"
    "\<And>i e ts. f i = Some e \<Longrightarrow> Q i ts \<Longrightarrow> i \<le> e \<Longrightarrow> e < length buf \<Longrightarrow>
        (\<forall>t \<in> set ts. tbegin t \<le> tend t \<and> tend t \<le> e) \<Longrightarrow> Q' i ts"
  shows "yields buf m f Q'"
proof (rule yieldsI)
  fix s assume "inv buf s" "f (position s) = None"
  from yields_None [OF assms(1) this] show "\<exists>s'. m s = Some (False, s')" .
next
  fix s e assume i: "inv buf s" and f: "f (position s) = Some e"
  from yields_Some [OF assms(1) i f] obtain s1 ts where
    p: "m s = Some (True, s1)" "position s1 = e" "visible s1 = visible s @ ts" "Q (position s) ts"
    by blast
  from sound_res [OF assms(2) i p(1)] have i1: "inv buf s1" "ext s s1" by simp_all
  have "visible s1 = take (tokenIndex s1) (tree (store s1))"
    using i1(1) by (rule visible_tree)
  with i1(1) have "\<forall>t \<in> set (visible s1). tbegin t \<le> tend t \<and> tend t \<le> position s1"
    by (simp add: inv_def)
  with p have bd: "\<forall>t \<in> set ts. tbegin t \<le> tend t \<and> tend t \<le> e" by simp
  from i1 p(2) have "position s \<le> e" "e < length buf"
    by (simp_all add: inv_def ext_def)
  from assms(3) [OF f p(4) this bd] p
  show "\<exists>s' ts. m s = Some (True, s') \<and> position s' = e \<and>
      visible s' = visible s @ ts \<and> Q' (position s) ts"
    by auto
qed

lemma yields_cong:
  assumes "yields buf m f Q" "\<And>i. i < length buf \<Longrightarrow> f i = g i"
  shows "yields buf m g Q"
  unfolding yields_def
proof (intro allI impI)
  fix s assume i: "inv buf s"
  then have "position s < length buf" by (simp add: inv_def)
  with assms(2) have "g (position s) = f (position s)" by simp
  with assms(1) i show "\<exists>b s'. m s = Some (b, s') \<and>
           (case g (position s) of
              None \<Rightarrow> \<not> b
            | Some e \<Rightarrow> b \<and> position s' = e \<and>
                (\<exists>ts. visible s' = visible s @ ts \<and> Q (position s) ts))"
    by (simp add: yields_def)
qed

lemma many_step:
  assumes "rune_at buf i = Some c"
  shows "many buf P i = (if P c then many buf P (Suc i) else Some i)"
proof -
  from assms have "drop i buf = c # drop (Suc i) buf"
    using Cons_nth_drop_Suc [of i buf] by (auto simp: rune_at_Some)
  then show ?thesis by (simp add: many_def)
qed

lemma yields_star:
  assumes "sound buf p" "consuming buf p" "yields buf p (one_of buf P) (\<lambda>i. quiet)"
  shows "yields buf (star p) (many buf P) (\<lambda>i. quiet)"
proof -
  have main: "\<exists>s' ts. star p s = Some (True, s') \<and>
      many buf P (position s) = Some (position s') \<and>
      visible s' = visible s @ ts \<and> quiet ts" if "inv buf s" for s
    using that
  proof (induction "length buf - position s" arbitrary: s rule: less_induct)
    case less
    from less.prems obtain c where c: "rune_at buf (position s) = Some c"
      using inv_in_range by blast
    show ?case
    proof (cases "P c")
      case True
      with c have o: "one_of buf P (position s) = Some (Suc (position s))"
        by (simp add: one_of_def)
      from yields_Some [OF assms(3) less.prems o] obtain s1 t1 where
        p: "p s = Some (True, s1)" "position s1 = Suc (position s)"
          "visible s1 = visible s @ t1" "quiet t1"
        by blast
      from sound_res [OF assms(1) less.prems p(1)] have i1: "inv buf s1" by simp
      then have "position s1 < length buf" by (simp add: inv_def)
      with p(2) have "length buf - position s1 < length buf - position s" by simp
      from less.hyps [OF this i1] obtain s2 t2 where
        r: "star p s1 = Some (True, s2)" "many buf P (position s1) = Some (position s2)"
          "visible s2 = visible s1 @ t2" "quiet t2"
        by blast
      have "star p s = Some (True, s2)"
        using p(1) r(1) by (subst star.simps) simp
      moreover have "many buf P (position s) = Some (position s2)"
        using many_step [OF c, of P] True r(2) p(2) by simp
      moreover have "quiet (t1 @ t2)" using p(4) r(4) by (auto simp: quiet_def)
      ultimately show ?thesis using r p by auto
    next
      case False
      with c have o: "one_of buf P (position s) = None" by (simp add: one_of_def)
      from yields_None [OF assms(3) less.prems o] obtain s1 where
        p: "p s = Some (False, s1)" by blast
      from sound_res [OF assms(1) less.prems p] have i1: "inv buf s1" "ext s s1" by simp_all
      have "star p s = Some (True, restore s s1)"
        using p by (subst star.simps) simp
      moreover have "many buf P (position s) = Some (position s)"
        using many_step [OF c, of P] False by simp
      moreover have "visible (restore s s1) = visible s"
        using less.prems i1 by (rule ext_visible)
      ultimately show ?thesis by (auto simp: quiet_def)
    qed
  qed
  show ?thesis
  proof (rule yieldsI)
    fix s assume "inv buf s" "many buf P (position s) = None"
    then show "\<exists>s'. star p s = Some (False, s')" by (simp add: many_def)
  next
    fix s e assume "inv buf s" "many buf P (position s) = Some e"
    with main [of s] show "\<exists>s' ts. star p s = Some (True, s') \<and> position s' = e \<and>
        visible s' = visible s @ ts \<and> quiet ts"
      by auto
  qed
qed

subsection \<open>Quiet matchers\<close>

lemma yields_mono:
  assumes "yields buf m f Q" "\<And>i ts. Q i ts \<Longrightarrow> Q' i ts"
  shows "yields buf m f Q'"
  using assms unfolding yields_def
  by (fastforce split: option.splits)

lemma quiet_Nil [simp]: "quiet []"
  by (simp add: quiet_def)

lemma quiet_append [simp]: "quiet (xs @ ys) \<longleftrightarrow> quiet xs \<and> quiet ys"
  by (auto simp: quiet_def)

lemma quiet_Cons [simp]: "quiet (x # xs) \<longleftrightarrow> silent (pegRule x) \<and> quiet xs"
  by (auto simp: quiet_def)

lemma quiet_lit: "yields buf (lit buf c) (one_of buf ((=) c)) (\<lambda>i. quiet)"
  by (rule yields_mono [OF yields_lit]) simp

lemma quiet_range:
  "yields buf (range buf lo hi) (one_of buf (\<lambda>c. lo \<le> c \<and> c \<le> hi)) (\<lambda>i. quiet)"
  by (rule yields_mono [OF yields_range]) simp

lemma quiet_matchDot: "yields buf (matchDot buf) (one_of buf any_rune) (\<lambda>i. quiet)"
proof -
  have a: "any_rune = (\<lambda>c. c \<noteq> endSymbol)" by (auto simp: any_rune_def)
  show ?thesis unfolding a by (rule yields_mono [OF yields_matchDot]) simp
qed

lemma quiet_seq:
  assumes "sound buf p" "yields buf p f (\<lambda>i. quiet)" "yields buf q g (\<lambda>i. quiet)"
  shows "yields buf (seq p q) (\<lambda>i. Option.bind (f i) g) (\<lambda>i. quiet)"
  by (rule yields_mono [OF yields_seq [OF assms]]) auto

lemma quiet_alt:
  assumes "sound buf p" "yields buf p f (\<lambda>i. quiet)" "yields buf q g (\<lambda>i. quiet)"
  shows "yields buf (alt p q) (\<lambda>i. case f i of None \<Rightarrow> g i | Some e \<Rightarrow> Some e) (\<lambda>i. quiet)"
  by (rule yields_mono [OF yields_alt [OF assms]]) (auto split: if_splits)

lemma quiet_tok:
  assumes "sound buf p" "yields buf p f (\<lambda>i. quiet)" "silent r"
  shows "yields buf (tok r p) f (\<lambda>i. quiet)"
  using assms(3) by (intro yields_mono [OF yields_tok [OF assms(1,2)]]) auto

subsection \<open>The rules of values\<close>

lemma yields_digits: "yields buf (digits buf) (many1 buf digit_rune) (\<lambda>i. quiet)"
proof -
  have d: "digit_rune = (\<lambda>c. rune CHR ''0'' \<le> c \<and> c \<le> rune CHR ''9'')"
    by (auto simp: digit_rune_def)
  have r: "yields buf (range buf (rune CHR ''0'') (rune CHR ''9'')) (one_of buf digit_rune) (\<lambda>i. quiet)"
    unfolding d by (rule quiet_range)
  have s: "sound buf (range buf (rune CHR ''0'') (rune CHR ''9''))"
    by (intro sound_intros)
  have c: "consuming buf (range buf (rune CHR ''0'') (rune CHR ''9''))"
    by (rule consuming_range)
  show ?thesis
    unfolding digits_def many1_def chain.simps
    by (intro quiet_seq s r yields_star c)
qed

lemma yields_Identifier_char:
  "yields buf (Identifier_char buf) (one_of buf identifier_rune) (\<lambda>i. quiet)"
proof (rule yieldsI)
  fix s assume "inv buf s" "one_of buf identifier_rune (position s) = None"
  then show "\<exists>s'. Identifier_char buf s = Some (False, s')"
    using inv_in_range [of buf s]
    by (auto simp: Identifier_char_def switch_def lit_def range_def one_of_def identifier_rune_def
          letter_rune_def split: if_splits)
next
  fix s e assume "inv buf s" "one_of buf identifier_rune (position s) = Some e"
  then show "\<exists>s' ts. Identifier_char buf s = Some (True, s') \<and> position s' = e \<and>
      visible s' = visible s @ ts \<and> quiet ts"
    by (auto simp: Identifier_char_def switch_def lit_def range_def one_of_def identifier_rune_def
          letter_rune_def split: option.splits if_splits)
qed

lemma yields_Identifier: "yields buf (Identifier buf) (Identifier_shape buf) (\<lambda>i. quiet)"
  unfolding Identifier_def Identifier_shape_def many1_def chain.simps
  by (intro yields_rule_fn quiet_tok quiet_seq yields_star yields_Identifier_char
        sound_Identifier_char consuming_Identifier_char sound_intros)
     (simp add: silent_def)

lemma yields_StringValue_char:
  "yields buf (StringValue_char buf) (one_of buf stringvalue_rune) (\<lambda>i. quiet)"
proof (rule yieldsI)
  fix s assume "inv buf s" "one_of buf stringvalue_rune (position s) = None"
  then show "\<exists>s'. StringValue_char buf s = Some (False, s')"
    using inv_in_range [of buf s]
    by (auto simp: StringValue_char_def switch_def lit_def range_def one_of_def stringvalue_rune_def
          letter_rune_def digit_rune_def split: if_splits)
next
  fix s e assume "inv buf s" "one_of buf stringvalue_rune (position s) = Some e"
  then show "\<exists>s' ts. StringValue_char buf s = Some (True, s') \<and> position s' = e \<and>
      visible s' = visible s @ ts \<and> quiet ts"
    by (auto simp: StringValue_char_def switch_def lit_def range_def one_of_def stringvalue_rune_def
          letter_rune_def digit_rune_def split: option.splits if_splits)
qed

lemma yields_StringValue: "yields buf (StringValue buf) (String_shape buf) (\<lambda>i. quiet)"
  unfolding StringValue_def String_shape_def many1_def chain.simps
  by (intro quiet_tok quiet_seq yields_star yields_StringValue_char
        sound_StringValue_char consuming_StringValue_char sound_intros)
     (simp add: silent_def)

lemma yields_Whitespace:
  "yields buf (Whitespace buf) (one_of buf whitespace_rune) (\<lambda>i. quiet)"
proof (rule yieldsI)
  fix s assume "inv buf s" "one_of buf whitespace_rune (position s) = None"
  then show "\<exists>s'. Whitespace buf s = Some (False, s')"
    using inv_in_range [of buf s]
    by (auto simp: Whitespace_def rule_fn_def tok_def alt_def lit_def one_of_def whitespace_rune_def
          restore_def split: if_splits)
next
  fix s e assume i: "inv buf s" and o: "one_of buf whitespace_rune (position s) = Some e"
  have y: "yields buf (Whitespace buf)
      (\<lambda>i. case one_of buf ((=) (rune CHR '' '')) i of None \<Rightarrow> one_of buf ((=) (rune CHR 0x09)) i
            | Some e \<Rightarrow> Some e) (\<lambda>i. quiet)"
    unfolding Whitespace_def
    by (intro yields_rule_fn quiet_tok quiet_alt quiet_lit sound_intros) (simp add: silent_def)
  from o have "(case one_of buf ((=) (rune CHR '' '')) (position s) of
      None \<Rightarrow> one_of buf ((=) (rune CHR 0x09)) (position s) | Some e \<Rightarrow> Some e) = Some e"
    by (auto simp: one_of_def whitespace_rune_def split: option.splits if_splits)
  from yields_Some [OF y i this]
  show "\<exists>s' ts. Whitespace buf s = Some (True, s') \<and> position s' = e \<and>
      visible s' = visible s @ ts \<and> quiet ts" .
qed

lemma yields_WhiteSpacing:
  "yields buf (WhiteSpacing buf) (many buf whitespace_rune) (\<lambda>i. quiet)"
  unfolding WhiteSpacing_def
  by (intro quiet_tok yields_star yields_Whitespace sound_Whitespace consuming_Whitespace
        sound_intros)
     (simp add: silent_def)

lemma yields_CidrValue: "yields buf (CidrValue buf) (Cidr_shape buf) (\<lambda>i. quiet)"
  unfolding CidrValue_def Cidr_shape_def chain.simps seqs.simps
  by (intro quiet_tok quiet_seq yields_digits quiet_matchDot quiet_lit sound_digits sound_intros)
     (simp add: silent_def)

lemma yields_IpValue: "yields buf (IpValue buf) (Ip_shape buf) (\<lambda>i. quiet)"
  unfolding IpValue_def Ip_shape_def chain.simps seqs.simps
  by (intro quiet_tok quiet_seq yields_digits quiet_matchDot quiet_lit sound_digits sound_intros)
     (simp add: silent_def)

lemma yields_IntRangeValue: "yields buf (IntRangeValue buf) (IntRange_shape buf) (\<lambda>i. quiet)"
  unfolding IntRangeValue_def IntRange_shape_def chain.simps seqs.simps
  by (intro quiet_tok quiet_seq yields_digits quiet_matchDot quiet_lit sound_digits sound_intros)
     (simp add: silent_def)

lemma yields_IntValue: "yields buf (IntValue buf) (Int_shape buf) (\<lambda>i. quiet)"
  unfolding IntValue_def Int_shape_def
  by (intro quiet_tok yields_digits sound_digits) (simp add: silent_def)



subsection \<open>The calls of \<^verbatim>\<open>Execute\<close>\<close>


lemma Execute_quiet:
  "quiet q \<Longrightarrow> Execute_loop buf k (q @ rest) reg = Execute_loop buf k rest reg"
proof (induction q)
  case Nil
  then show ?case by simp
next
  case (Cons t q)
  then have "silent (pegRule t)" "Execute_loop buf k (q @ rest) reg = Execute_loop buf k rest reg"
    by simp_all
  then show ?case
    by (cases "pegRule t") (simp_all add: silent_def)
qed

lemma Execute_PegText:
  "tb \<le> te \<Longrightarrow> te \<le> length buf \<Longrightarrow>
     Execute_loop buf k (\<lparr>pegRule = rulePegText, tbegin = tb, tend = te\<rparr> # rest) reg =
       Execute_loop buf k rest (text_of buf tb te)"
  by (simp add: slice_def text_of_def)

lemma calls_capture:
  assumes "quiet q1" "quiet q2" "tb \<le> te" "te \<le> length buf"
    and "\<And>k rest reg. Execute_loop buf k (\<lparr>pegRule = a, tbegin = x, tend = y\<rparr> # rest) reg =
           map_option ((#) (ctor reg)) (Execute_loop buf k rest reg)"
  shows "calls buf (q1 @ \<lparr>pegRule = rulePegText, tbegin = tb, tend = te\<rparr> # q2 @
                     [\<lparr>pegRule = a, tbegin = x, tend = y\<rparr>]) (ctor (text_of buf tb te))"
  unfolding calls_def
proof (intro allI)
  fix k reg rest
  have "Execute_loop buf k ((q1 @ \<lparr>pegRule = rulePegText, tbegin = tb, tend = te\<rparr> # q2 @
                     [\<lparr>pegRule = a, tbegin = x, tend = y\<rparr>]) @ rest) reg =
        Execute_loop buf k (\<lparr>pegRule = rulePegText, tbegin = tb, tend = te\<rparr> # q2 @
                     \<lparr>pegRule = a, tbegin = x, tend = y\<rparr> # rest) reg"
    using Execute_quiet [OF assms(1)] by simp
  also have "\<dots> = Execute_loop buf k (q2 @ \<lparr>pegRule = a, tbegin = x, tend = y\<rparr> # rest) (text_of buf tb te)"
    using assms(3,4) by (rule Execute_PegText)
  also have "\<dots> = Execute_loop buf k (\<lparr>pegRule = a, tbegin = x, tend = y\<rparr> # rest) (text_of buf tb te)"
    using assms(2) by (rule Execute_quiet)
  also have "\<dots> = map_option ((#) (ctor (text_of buf tb te))) (Execute_loop buf k rest (text_of buf tb te))"
    by (rule assms(5))
  finally show "\<exists>reg'. Execute_loop buf k ((q1 @ \<lparr>pegRule = rulePegText, tbegin = tb, tend = te\<rparr> # q2 @
                     [\<lparr>pegRule = a, tbegin = x, tend = y\<rparr>]) @ rest) reg =
        map_option ((#) (ctor (text_of buf tb te))) (Execute_loop buf k rest reg')"
    by blast
qed

lemma cap_PegText:
  assumes "sound buf p" "yields buf p f (\<lambda>i. quiet)"
  shows "yields buf (tok rulePegText p) f (\<lambda>i. captured i (the (f i)))"
proof (rule yields_mono [OF yields_tok [OF assms]])
  fix i ts
  assume "\<exists>t1. ts = t1 @ [\<lparr>pegRule = rulePegText, tbegin = i, tend = the (f i)\<rparr>] \<and> quiet t1"
  then obtain t1 where "ts = t1 @ \<lparr>pegRule = rulePegText, tbegin = i, tend = the (f i)\<rparr> # []"
      "quiet t1" "quiet []"
    by auto
  then show "captured i (the (f i)) ts"
    unfolding captured_def by blast
qed

lemma cap_seq_r:
  assumes "sound buf p" "yields buf p f (\<lambda>i. quiet)" "yields buf q g (\<lambda>j. captured (B j) (E j))"
  shows "yields buf (seq p q) (\<lambda>i. Option.bind (f i) g)
           (\<lambda>i. captured (B (the (f i))) (E (the (f i))))"
proof (rule yields_mono [OF yields_seq [OF assms]])
  fix i ts
  assume "\<exists>t1 t2. ts = t1 @ t2 \<and> quiet t1 \<and> captured (B (the (f i))) (E (the (f i))) t2"
  then obtain t1 q1 q2 where "ts = (t1 @ q1) @
      \<lparr>pegRule = rulePegText, tbegin = B (the (f i)), tend = E (the (f i))\<rparr> # q2"
      "quiet (t1 @ q1)" "quiet q2"
    by (auto simp: captured_def)
  then show "captured (B (the (f i))) (E (the (f i))) ts"
    unfolding captured_def by blast
qed

lemma cap_seq_l:
  assumes "sound buf p" "yields buf p f (\<lambda>i. captured (B i) (E i))" "yields buf q g (\<lambda>j. quiet)"
  shows "yields buf (seq p q) (\<lambda>i. Option.bind (f i) g) (\<lambda>i. captured (B i) (E i))"
proof (rule yields_mono [OF yields_seq [OF assms]])
  fix i ts
  assume "\<exists>t1 t2. ts = t1 @ t2 \<and> captured (B i) (E i) t1 \<and> quiet t2"
  then obtain t2 q1 q2 where "ts = q1 @ \<lparr>pegRule = rulePegText, tbegin = B i, tend = E i\<rparr> # (q2 @ t2)"
      "quiet q1" "quiet (q2 @ t2)"
    by (auto simp: captured_def)
  then show "captured (B i) (E i) ts"
    unfolding captured_def by blast
qed

lemma cap_tok:
  assumes "sound buf p" "yields buf p f (\<lambda>i. captured (B i) (E i))" "silent r"
  shows "yields buf (tok r p) f (\<lambda>i. captured (B i) (E i))"
proof (rule yields_mono [OF yields_tok [OF assms(1,2)]])
  fix i ts
  assume "\<exists>t1. ts = t1 @ [\<lparr>pegRule = r, tbegin = i, tend = the (f i)\<rparr>] \<and> captured (B i) (E i) t1"
  then obtain q1 q2 where "ts = q1 @ \<lparr>pegRule = rulePegText, tbegin = B i, tend = E i\<rparr> #
      (q2 @ [\<lparr>pegRule = r, tbegin = i, tend = the (f i)\<rparr>])"
      "quiet q1" "quiet (q2 @ [\<lparr>pegRule = r, tbegin = i, tend = the (f i)\<rparr>])"
    using assms(3) by (auto simp: captured_def)
  then show "captured (B i) (E i) ts"
    unfolding captured_def by blast
qed

text \<open>A captured text followed by its action.\<close>

lemma disp_act:
  assumes "sound buf p" "yields buf p f (\<lambda>i. captured (B i) (E i))"
    and "\<And>k rest reg x. Execute_loop buf k (\<lparr>pegRule = a, tbegin = x, tend = x\<rparr> # rest) reg =
           map_option ((#) (ctor reg)) (Execute_loop buf k rest reg)"
  shows "yields buf (seq p (act a)) f (\<lambda>i ts. calls buf ts (ctor (text_of buf (B i) (E i))))"
proof -
  have raw: "yields buf (seq p (act a)) (\<lambda>i. Option.bind (f i) Some)
      (\<lambda>i ts. \<exists>t1 t2. ts = t1 @ t2 \<and> captured (B i) (E i) t1 \<and>
         t2 = [\<lparr>pegRule = a, tbegin = the (f i), tend = the (f i)\<rparr>])"
    by (rule yields_seq [OF assms(1,2) yields_act])
  have raw': "yields buf (seq p (act a)) f
      (\<lambda>i ts. \<exists>t1 t2. ts = t1 @ t2 \<and> captured (B i) (E i) t1 \<and>
         t2 = [\<lparr>pegRule = a, tbegin = the (f i), tend = the (f i)\<rparr>])"
    by (rule yields_cong [OF raw]) simp
  have s: "sound buf (seq p (act a))"
    by (intro sound_intros assms(1))
  show ?thesis
  proof (rule yields_weaken [OF raw' s])
    fix i e ts
    assume f: "f i = Some e" and le: "e < length buf"
      and bd: "\<forall>t \<in> set ts. tbegin t \<le> tend t \<and> tend t \<le> e"
      and q: "\<exists>t1 t2. ts = t1 @ t2 \<and> captured (B i) (E i) t1 \<and>
         t2 = [\<lparr>pegRule = a, tbegin = the (f i), tend = the (f i)\<rparr>]"
    from q f obtain q1 q2 where ts: "ts = q1 @ \<lparr>pegRule = rulePegText, tbegin = B i, tend = E i\<rparr> #
        q2 @ [\<lparr>pegRule = a, tbegin = e, tend = e\<rparr>]" "quiet q1" "quiet q2"
      by (auto simp: captured_def)
    from bd ts(1) le have b: "B i \<le> E i" "E i \<le> length buf" by simp_all
    from calls_capture [where x = e and y = e, OF ts(2,3) b assms(3)] ts(1)
    show "calls buf ts (ctor (text_of buf (B i) (E i)))"
      by simp
  qed
qed

lemmas value_sound =
  sound_intros sound_CidrValue sound_IpValue sound_IntRangeValue sound_IntValue sound_RefValue
  sound_AliasValue sound_HoleValue sound_StringValue sound_Identifier sound_WhiteSpacing

lemma disp_Cidr:
  "yields buf (seq (tok rulePegText (CidrValue buf)) (act ruleAction8)) (Cidr_shape buf)
     (\<lambda>i ts. calls buf ts (addParamCidrValue (text_of buf i (the (Cidr_shape buf i)))))"
  by (intro disp_act cap_PegText yields_CidrValue value_sound) simp

lemma disp_Ip:
  "yields buf (seq (tok rulePegText (IpValue buf)) (act ruleAction9)) (Ip_shape buf)
     (\<lambda>i ts. calls buf ts (addParamIpValue (text_of buf i (the (Ip_shape buf i)))))"
  by (intro disp_act cap_PegText yields_IpValue value_sound) simp

lemma disp_IntRange:
  "yields buf (seq (tok rulePegText (IntRangeValue buf)) (act ruleAction10)) (IntRange_shape buf)
     (\<lambda>i ts. calls buf ts (addParamValue (text_of buf i (the (IntRange_shape buf i)))))"
  by (intro disp_act cap_PegText yields_IntRangeValue value_sound) simp

lemma disp_Int:
  "yields buf (seq (tok rulePegText (IntValue buf)) (act ruleAction11)) (Int_shape buf)
     (\<lambda>i ts. calls buf ts (addParamIntValue (text_of buf i (the (Int_shape buf i)))))"
  by (intro disp_act cap_PegText yields_IntValue value_sound) simp

lemma disp_String:
  "yields buf (seq (tok rulePegText (StringValue buf)) (act ruleAction12)) (String_shape buf)
     (\<lambda>i ts. calls buf ts (addParamValue (text_of buf i (the (String_shape buf i)))))"
  by (intro disp_act cap_PegText yields_StringValue value_sound) simp

lemma disp_Ref:
  "yields buf (seq (RefValue buf) (act ruleAction7)) (Ref_shape buf)
     (\<lambda>i ts. calls buf ts
        (addParamRefValue (text_of buf (the (one_of buf ((=) (rune CHR ''$'')) i))
           (the (Identifier_shape buf (the (one_of buf ((=) (rune CHR ''$'')) i)))))))"
  unfolding RefValue_def Ref_shape_def chain.simps
  by (intro disp_act cap_tok cap_seq_r cap_PegText quiet_lit yields_Identifier value_sound)
     (simp_all add: silent_def)

lemma disp_Alias:
  "yields buf (seq (AliasValue buf) (act ruleAction6)) (Alias_shape buf)
     (\<lambda>i ts. calls buf ts
        (addParamAliasValue (text_of buf (the (one_of buf ((=) (rune CHR ''@'')) i))
           (the (Identifier_shape buf (the (one_of buf ((=) (rune CHR ''@'')) i)))))))"
  unfolding AliasValue_def Alias_shape_def chain.simps
  by (intro disp_act cap_tok cap_seq_r cap_PegText quiet_lit yields_Identifier value_sound)
     (simp_all add: silent_def)

lemma disp_Hole:
  "yields buf (seq (HoleValue buf) (act ruleAction5)) (Hole_shape buf)
     (\<lambda>i ts. calls buf ts
        (addParamHoleValue
           (text_of buf
              (the (many buf whitespace_rune (the (one_of buf ((=) (rune CHR ''{'')) i))))
              (the (Identifier_shape buf
                 (the (many buf whitespace_rune (the (one_of buf ((=) (rune CHR ''{'')) i)))))))))"
  unfolding HoleValue_def Hole_shape_def chain.simps seqs.simps
  by (intro disp_act cap_tok cap_seq_r cap_seq_l cap_PegText quiet_seq quiet_lit
        yields_Identifier yields_WhiteSpacing value_sound)
     (simp_all add: silent_def)



subsection \<open>The dispatch\<close>


lemma yields_cong_weaken:
  assumes "yields buf m f Q" "sound buf m"
    and "\<And>i. i < length buf \<Longrightarrow> f i = g i"
    and "\<And>i e ts. g i = Some e \<Longrightarrow> Q i ts \<Longrightarrow> i \<le> e \<Longrightarrow> e < length buf \<Longrightarrow> Q' i ts"
  shows "yields buf m g Q'"
proof (rule yields_weaken [OF yields_cong [OF assms(1,3)] assms(2)])
  fix i e ts
  assume "g i = Some e" "Q i ts" "i \<le> e" "e < length buf"
  then show "Q' i ts" by (rule assms(4))
qed

lemma calls_then_silent:
  assumes "calls buf t1 c" "silent r"
  shows "Execute_loop buf k (t1 @ [\<lparr>pegRule = r, tbegin = x, tend = y\<rparr>]) reg = Some [c]"
proof -
  from assms(1) obtain reg' where
    "Execute_loop buf k (t1 @ [\<lparr>pegRule = r, tbegin = x, tend = y\<rparr>]) reg =
       map_option ((#) c) (Execute_loop buf k [\<lparr>pegRule = r, tbegin = x, tend = y\<rparr>] reg')"
    unfolding calls_def by blast
  moreover have "Execute_loop buf k ([\<lparr>pegRule = r, tbegin = x, tend = y\<rparr>] @ []) reg' =
      Execute_loop buf k [] reg'"
    using assms(2) by (intro Execute_quiet) simp
  ultimately show ?thesis by simp
qed

lemma alt_calls:
  assumes "sound buf p" "yields buf p f (\<lambda>i ts. calls buf ts (c i))"
    "yields buf q g (\<lambda>i ts. calls buf ts (d i))"
  shows "yields buf (alt p q) (\<lambda>i. case f i of None \<Rightarrow> g i | Some e \<Rightarrow> Some e)
           (\<lambda>i ts. calls buf ts (if f i = None then d i else c i))"
  by (rule yields_mono [OF yields_alt [OF assms]]) (simp split: if_splits)

lemma Value_refines:
  "yields buf (Value buf) (\<lambda>i. map_option snd (Value_spec buf i))
     (\<lambda>i ts. \<forall>k reg. Execute_loop buf k ts reg = Some [fst (the (Value_spec buf i))])"
proof -
  let ?G = "\<lambda>c. if c = rune CHR ''$'' then Ref_shape buf
                 else if c = rune CHR ''@'' then Alias_shape buf
                 else if c = rune CHR ''{'' then Hole_shape buf
                 else String_shape buf"
  let ?C = "\<lambda>c i. if c = rune CHR ''$'' then
        addParamRefValue (text_of buf (the (one_of buf ((=) (rune CHR ''$'')) i))
           (the (Identifier_shape buf (the (one_of buf ((=) (rune CHR ''$'')) i)))))
     else if c = rune CHR ''@'' then
        addParamAliasValue (text_of buf (the (one_of buf ((=) (rune CHR ''@'')) i))
           (the (Identifier_shape buf (the (one_of buf ((=) (rune CHR ''@'')) i)))))
     else if c = rune CHR ''{'' then
        addParamHoleValue
           (text_of buf
              (the (many buf whitespace_rune (the (one_of buf ((=) (rune CHR ''{'')) i))))
              (the (Identifier_shape buf
                 (the (many buf whitespace_rune (the (one_of buf ((=) (rune CHR ''{'')) i)))))))
     else addParamValue (text_of buf i (the (String_shape buf i)))"
  let ?SW = "switch buf (\<lambda>c.
               if c = rune CHR ''$'' then seq (RefValue buf) (act ruleAction7)
               else if c = rune CHR ''@'' then seq (AliasValue buf) (act ruleAction6)
               else if c = rune CHR ''{'' then seq (HoleValue buf) (act ruleAction5)
               else seq (tok rulePegText (StringValue buf)) (act ruleAction12))"
  have "yields buf ?SW (\<lambda>i. case rune_at buf i of None \<Rightarrow> None | Some c \<Rightarrow> ?G c i)
      (\<lambda>i ts. (\<lambda>c i ts. calls buf ts (?C c i)) (the (rune_at buf i)) i ts)"
    by (rule yields_switch) (simp add: disp_Ref disp_Alias disp_Hole disp_String)
  then have sw: "yields buf ?SW (\<lambda>i. case rune_at buf i of None \<Rightarrow> None | Some c \<Rightarrow> ?G c i)
      (\<lambda>i ts. calls buf ts (?C (the (rune_at buf i)) i))"
    by simp
  have s8: "sound buf (seq (tok rulePegText (CidrValue buf)) (act ruleAction8))"
    and s9: "sound buf (seq (tok rulePegText (IpValue buf)) (act ruleAction9))"
    and s10: "sound buf (seq (tok rulePegText (IntRangeValue buf)) (act ruleAction10))"
    and s11: "sound buf (seq (tok rulePegText (IntValue buf)) (act ruleAction11))"
    by (intro value_sound)+
  have ssw: "sound buf ?SW"
    by (intro value_sound)
  note a11 = alt_calls [OF s11 disp_Int sw]
  note a10 = alt_calls [OF s10 disp_IntRange a11]
  note a9 = alt_calls [OF s9 disp_Ip a10]
  note a8 = alt_calls [OF s8 disp_Cidr a9]
  have sa: "sound buf (alt (seq (tok rulePegText (CidrValue buf)) (act ruleAction8))
       (alt (seq (tok rulePegText (IpValue buf)) (act ruleAction9))
       (alt (seq (tok rulePegText (IntRangeValue buf)) (act ruleAction10))
       (alt (seq (tok rulePegText (IntValue buf)) (act ruleAction11)) ?SW))))"
    by (intro sound_alt s8 s9 s10 s11 ssw)
  note v = yields_tok [OF sa a8, of ruleValue]
  have sv: "sound buf (Value buf)" by (rule sound_Value)
  have fin: "Execute_loop buf k (t1 @ [\<lparr>pegRule = ruleValue, tbegin = x, tend = y\<rparr>]) reg = Some [c']"
    if "calls buf t1 c" "c = c'" for k t1 x y reg c c'
    using that by (auto intro!: calls_then_silent simp: silent_def)
  show ?thesis
    apply (rule yields_cong_weaken [OF v [folded Value_def] sv])
    subgoal for i
      by (auto simp: Value_spec_def Hole_spec_def Ref_shape_def Alias_shape_def Hole_shape_def
            one_of_def rune_def option.map_comp o_def option.map_ident
            split: option.splits)
    subgoal for i e ts
      apply (elim exE conjE)
      apply (intro allI)
      apply hypsubst
      apply (erule fin)
      apply (auto simp: Value_spec_def Hole_spec_def one_of_def rune_def split: option.splits)
      done
    done
qed




section \<open>Concrete runs\<close>

text \<open>The end-to-end text: a declaration with a CIDR parameter, a newline, an
  expression with a reference and a CIDR parameter, a newline.\<close>

lemma run_cidr: "run k (runes ''create subnet cidr=10.0.0.0/16'') =
    Some (Inr [addAction (runes ''create''), addEntity (runes ''subnet''),
               addParamKey (runes ''cidr''), addParamCidrValue (runes ''10.0.0.0/16''), LineDone])"
  by code_simp

lemma run_ip: "run k (runes ''create instance ip=10.0.0.0'') =
    Some (Inr [addAction (runes ''create''), addEntity (runes ''instance''),
               addParamKey (runes ''ip''), addParamIpValue (runes ''10.0.0.0''), LineDone])"
  by code_simp

lemma run_range: "run k (runes ''create instance count=5-10'') =
    Some (Inr [addAction (runes ''create''), addEntity (runes ''instance''),
               addParamKey (runes ''count''), addParamValue (runes ''5-10''), LineDone])"
  by code_simp

lemma run_int: "run k (runes ''create instance count=42'') =
    Some (Inr [addAction (runes ''create''), addEntity (runes ''instance''),
               addParamKey (runes ''count''), addParamIntValue (runes ''42''), LineDone])"
  by code_simp

lemma run_any_separator: "run k (runes ''create subnet cidr=1x2x3x4/5'') =
    Some (Inr [addAction (runes ''create''), addEntity (runes ''subnet''),
               addParamKey (runes ''cidr''), addParamCidrValue (runes ''1x2x3x4/5''), LineDone])"
  by code_simp

lemma run_cidr_before_range: "run k (runes ''create subnet cidr=1-2-3-4/5'') =
    Some (Inr [addAction (runes ''create''), addEntity (runes ''subnet''),
               addParamKey (runes ''cidr''), addParamCidrValue (runes ''1-2-3-4/5''), LineDone])"
  by code_simp

lemma run_ip_before_range: "run k (runes ''create instance ip=1-2-3-4'') =
    Some (Inr [addAction (runes ''create''), addEntity (runes ''instance''),
               addParamKey (runes ''ip''), addParamIpValue (runes ''1-2-3-4''), LineDone])"
  by code_simp

lemma run_ref: "run k (runes ''create subnet vpc=$my.vpc'') =
    Some (Inr [addAction (runes ''create''), addEntity (runes ''subnet''),
               addParamKey (runes ''vpc''), addParamRefValue (runes ''my.vpc''), LineDone])"
  by code_simp

lemma run_alias: "run k (runes ''create subnet vpc=@al'') =
    Some (Inr [addAction (runes ''create''), addEntity (runes ''subnet''),
               addParamKey (runes ''vpc''), addParamAliasValue (runes ''al''), LineDone])"
  by code_simp

lemma run_hole: "run k (runes ''create subnet vpc={ my-vpc }'') =
    Some (Inr [addAction (runes ''create''), addEntity (runes ''subnet''),
               addParamKey (runes ''vpc''), addParamHoleValue (runes ''my-vpc''), LineDone])"
  by code_simp

lemma run_string: "run k (runes ''create subnet name=sub_1/a:b'') =
    Some (Inr [addAction (runes ''create''), addEntity (runes ''subnet''),
               addParamKey (runes ''name''), addParamValue (runes ''sub_1/a:b''), LineDone])"
  by code_simp




text \<open>
  C4. The dispatch of a value follows the fixed ordered choice. From every state of
  the invariant, \<open>Value\<close> does what \<open>Value_spec\<close> says for the offset of the state:
  it fails when \<open>Value_spec\<close> is \<open>None\<close>; otherwise it succeeds, ends where \<open>Value_spec\<close>
  says, and over the records it has added \<^verbatim>\<open>Execute\<close> makes the one call that
  \<open>Value_spec\<close> names: \<^verbatim>\<open>addParamCidrValue\<close> where the Cidr shape matches; else
  \<^verbatim>\<open>addParamIpValue\<close> where the Ip shape matches; else \<^verbatim>\<open>addParamValue\<close> where the IntRange
  shape matches; else \<^verbatim>\<open>addParamIntValue\<close> where the Int shape matches; else the call
  chosen by the rune at the offset, \<^verbatim>\<open>addParamRefValue\<close> for \<^verbatim>\<open>$\<close>, \<^verbatim>\<open>addParamAliasValue\<close>
  for \<^verbatim>\<open>@\<close>, \<^verbatim>\<open>addParamHoleValue\<close> for \<^verbatim>\<open>{\<close> and \<^verbatim>\<open>addParamValue\<close> for a string value.
  As the value of a parameter, \<^verbatim>\<open>10.0.0.0/16\<close> gives the single value call
  \<^verbatim>\<open>addParamCidrValue\<close>, \<^verbatim>\<open>10.0.0.0\<close> gives \<^verbatim>\<open>addParamIpValue\<close>, \<^verbatim>\<open>5-10\<close> gives \<^verbatim>\<open>addParamValue\<close>,
  \<^verbatim>\<open>42\<close> gives \<^verbatim>\<open>addParamIntValue\<close>; the separators of Cidr and Ip are matched by
  \<^verbatim>\<open>matchDot\<close>, so \<^verbatim>\<open>1x2x3x4/5\<close> and \<^verbatim>\<open>1-2-3-4/5\<close> give \<^verbatim>\<open>addParamCidrValue\<close> and \<^verbatim>\<open>1-2-3-4\<close>
  gives \<^verbatim>\<open>addParamIpValue\<close>, not the call of an integer range; a reference, an alias,
  a hole and a string value give their calls.
\<close>

theorem value_dispatch:
  assumes "inv buf s"
  shows "(case Value_spec buf (position s) of
            None \<Rightarrow> (\<exists>s'. Value buf s = Some (False, s'))
          | Some (c, e) \<Rightarrow>
              (\<exists>s' ts. Value buf s = Some (True, s') \<and> position s' = e \<and>
                 visible s' = visible s @ ts \<and>
                 (\<forall>n reg. Execute_loop buf n ts reg = Some [c]))) \<and>
         run k (runes ''create subnet cidr=10.0.0.0/16'') =
           Some (Inr [addAction (runes ''create''), addEntity (runes ''subnet''),
                      addParamKey (runes ''cidr''), addParamCidrValue (runes ''10.0.0.0/16''),
                      LineDone]) \<and>
         run k (runes ''create instance ip=10.0.0.0'') =
           Some (Inr [addAction (runes ''create''), addEntity (runes ''instance''),
                      addParamKey (runes ''ip''), addParamIpValue (runes ''10.0.0.0''), LineDone]) \<and>
         run k (runes ''create instance count=5-10'') =
           Some (Inr [addAction (runes ''create''), addEntity (runes ''instance''),
                      addParamKey (runes ''count''), addParamValue (runes ''5-10''), LineDone]) \<and>
         run k (runes ''create instance count=42'') =
           Some (Inr [addAction (runes ''create''), addEntity (runes ''instance''),
                      addParamKey (runes ''count''), addParamIntValue (runes ''42''), LineDone]) \<and>
         run k (runes ''create subnet cidr=1x2x3x4/5'') =
           Some (Inr [addAction (runes ''create''), addEntity (runes ''subnet''),
                      addParamKey (runes ''cidr''), addParamCidrValue (runes ''1x2x3x4/5''),
                      LineDone]) \<and>
         run k (runes ''create subnet cidr=1-2-3-4/5'') =
           Some (Inr [addAction (runes ''create''), addEntity (runes ''subnet''),
                      addParamKey (runes ''cidr''), addParamCidrValue (runes ''1-2-3-4/5''),
                      LineDone]) \<and>
         run k (runes ''create instance ip=1-2-3-4'') =
           Some (Inr [addAction (runes ''create''), addEntity (runes ''instance''),
                      addParamKey (runes ''ip''), addParamIpValue (runes ''1-2-3-4''), LineDone]) \<and>
         run k (runes ''create subnet vpc=$my.vpc'') =
           Some (Inr [addAction (runes ''create''), addEntity (runes ''subnet''),
                      addParamKey (runes ''vpc''), addParamRefValue (runes ''my.vpc''), LineDone]) \<and>
         run k (runes ''create subnet vpc=@al'') =
           Some (Inr [addAction (runes ''create''), addEntity (runes ''subnet''),
                      addParamKey (runes ''vpc''), addParamAliasValue (runes ''al''), LineDone]) \<and>
         run k (runes ''create subnet vpc={ my-vpc }'') =
           Some (Inr [addAction (runes ''create''), addEntity (runes ''subnet''),
                      addParamKey (runes ''vpc''), addParamHoleValue (runes ''my-vpc''), LineDone]) \<and>
         run k (runes ''create subnet name=sub_1/a:b'') =
           Some (Inr [addAction (runes ''create''), addEntity (runes ''subnet''),
                      addParamKey (runes ''name''), addParamValue (runes ''sub_1/a:b''), LineDone])"
proof -
  have general: "case Value_spec buf (position s) of
            None \<Rightarrow> (\<exists>s'. Value buf s = Some (False, s'))
          | Some (c, e) \<Rightarrow>
              (\<exists>s' ts. Value buf s = Some (True, s') \<and> position s' = e \<and>
                 visible s' = visible s @ ts \<and>
                 (\<forall>n reg. Execute_loop buf n ts reg = Some [c]))"
  proof (cases "Value_spec buf (position s)")
    case None
    then have "map_option snd (Value_spec buf (position s)) = None" by simp
    from yields_None [OF Value_refines assms this] None show ?thesis by simp
  next
    case (Some ce)
    obtain c e where ce: "ce = (c, e)" by (cases ce)
    with Some have "map_option snd (Value_spec buf (position s)) = Some e" by simp
    from yields_Some [OF Value_refines assms this] Some ce show ?thesis by auto
  qed
  show ?thesis
    by (intro conjI general run_cidr run_ip run_range run_int run_any_separator
          run_cidr_before_range run_ip_before_range run_ref run_alias run_hole run_string)
qed

text \<open>The theorem at the start of the buffers \<^verbatim>\<open>1-2-3-4/5\<close>, \<^verbatim>\<open>5-10\<close>, \<^verbatim>\<open>@al\<close> and \<^verbatim>\<open>!\<close>.\<close>

theorem value_dispatch_witness:
  "inv (buffer (new_Peg 0 (runes ''1-2-3-4/5''))) (vars (new_Peg 0 (runes ''1-2-3-4/5''))) \<and>
   Value_spec (buffer (new_Peg 0 (runes ''1-2-3-4/5''))) 0 =
     Some (addParamCidrValue (runes ''1-2-3-4/5''), 9) \<and>
   (\<exists>s' ts. Value (buffer (new_Peg 0 (runes ''1-2-3-4/5''))) (vars (new_Peg 0 (runes ''1-2-3-4/5''))) =
        Some (True, s') \<and> position s' = 9 \<and>
      Execute_loop (buffer (new_Peg 0 (runes ''1-2-3-4/5''))) 0 ts [] =
        Some [addParamCidrValue (runes ''1-2-3-4/5'')]) \<and>
   Value_spec (buffer (new_Peg 0 (runes ''5-10''))) 0 = Some (addParamValue (runes ''5-10''), 4) \<and>
   Value_spec (buffer (new_Peg 0 (runes ''@al''))) 0 = Some (addParamAliasValue (runes ''al''), 3) \<and>
   Value_spec (buffer (new_Peg 0 (runes ''!''))) 0 = None \<and>
   (\<exists>s'. Value (buffer (new_Peg 0 (runes ''!''))) (vars (new_Peg 0 (runes ''!''))) = Some (False, s'))"
proof -
  let ?p = "new_Peg 0 (runes ''1-2-3-4/5'')" and ?q = "new_Peg 0 (runes ''!'')"
  have i: "inv (buffer ?p) (vars ?p)" and j: "inv (buffer ?q) (vars ?q)"
    by (rule inv_new_Peg)+
  have p0: "position (vars ?p) = 0" "position (vars ?q) = 0"
    by (simp_all add: vars_new_Peg)
  have v: "Value_spec (buffer ?p) 0 = Some (addParamCidrValue (runes ''1-2-3-4/5''), 9)"
    by code_simp
  have w: "Value_spec (buffer ?q) 0 = None"
    by code_simp
  have r: "Value_spec (buffer (new_Peg 0 (runes ''5-10''))) 0 = Some (addParamValue (runes ''5-10''), 4)"
    by code_simp
  have a: "Value_spec (buffer (new_Peg 0 (runes ''@al''))) 0 = Some (addParamAliasValue (runes ''al''), 3)"
    by code_simp
  from value_dispatch [OF i, of 0, THEN conjunct1] v p0
  have "\<exists>s' ts. Value (buffer ?p) (vars ?p) = Some (True, s') \<and> position s' = 9 \<and>
      Execute_loop (buffer ?p) 0 ts [] = Some [addParamCidrValue (runes ''1-2-3-4/5'')]"
    by auto
  moreover from value_dispatch [OF j, of 0, THEN conjunct1] w p0
  have "\<exists>s'. Value (buffer ?q) (vars ?q) = Some (False, s')"
    by auto
  ultimately show ?thesis using i v w r a by blast
qed






text \<open>C1. For the two-line text, \<^verbatim>\<open>Parse\<close> returns \<^verbatim>\<open>nil\<close> and \<^verbatim>\<open>Execute\<close> makes exactly
  these thirteen calls, in this order.\<close>

theorem end_to_end_scenario:
  "run k (runes (''vpcid = create vpc cidr=10.0.0.0/16'' @ [CHR 0x0A] @
               ''create subnet vpc=$vpcid cidr=10.0.0.1/24'' @ [CHR 0x0A])) =
   Some (Inr [addDeclarationIdentifier (runes ''vpcid''), addAction (runes ''create''),
              addEntity (runes ''vpc''), addParamKey (runes ''cidr''),
              addParamCidrValue (runes ''10.0.0.0/16''), LineDone,
              addAction (runes ''create''), addEntity (runes ''subnet''),
              addParamKey (runes ''vpc''), addParamRefValue (runes ''vpcid''),
              addParamKey (runes ''cidr''), addParamCidrValue (runes ''10.0.0.1/24''),
              LineDone])"
  by code_simp

text \<open>C9, as stated, fails: the empty text and a text of two spaces hold no
  statement, and \<^verbatim>\<open>Parse\<close> returns an error for both.\<close>

theorem zero_statements_counterexample:
  "map_option isl (run 0 (runes '''')) = Some True \<and>
   map_option isl (run 0 (runes ''  '')) = Some True"
  by code_simp

end
